theory Spec2Isabelle
  imports Main "HOL-Library.Sublist" "HOL-Library.Monad_Syntax"
begin

section \<open>Strings of the source program\<close>

text \<open>
  The program is \<^verbatim>\<open>scripts/register-images.js\<close>. A JavaScript string is modelled as a
  \<^typ>\<open>string\<close> (a list of \<^typ>\<open>char\<close>): one \<^typ>\<open>char\<close> stands for one code unit, so
  the model covers texts whose code units are below 256. Indices are \<^typ>\<open>int\<close>, because
  the program computes with the sentinel \<open>-1\<close> of \<^verbatim>\<open>indexOf\<close>.
\<close>

abbreviation SQ :: char where "SQ \<equiv> CHR 0x27"
abbreviation BS :: char where "BS \<equiv> CHR 0x5C"
abbreviation DQ :: char where "DQ \<equiv> CHR 0x22"

text \<open>The class \<^verbatim>\<open>\s\<close> of a JavaScript regular expression (also what \<^verbatim>\<open>trim\<close> removes),
  restricted to code units below 256: TAB, LF, VT, FF, CR, space and NBSP.\<close>

definition is_space :: "char \<Rightarrow> bool" where
  "is_space c = (c = CHR 0x09 \<or> c = CHR 0x0A \<or> c = CHR 0x0B \<or> c = CHR 0x0C \<or> c = CHR 0x0D
     \<or> c = CHR 0x20 \<or> c = CHR 0xA0)"

text \<open>The line terminators that \<^verbatim>\<open>.\<close> does not match without the \<^verbatim>\<open>s\<close> flag.\<close>

definition is_line_term :: "char \<Rightarrow> bool" where
  "is_line_term c = (c = CHR 0x0A \<or> c = CHR 0x0D)"

text \<open>\<^verbatim>\<open>s[i]\<close>: \<^verbatim>\<open>undefined\<close> (here \<open>None\<close>) outside the string.\<close>

definition charAt :: "string \<Rightarrow> int \<Rightarrow> char option" where
  "charAt s i = (if 0 \<le> i \<and> i < int (length s) then Some (s ! nat i) else None)"

text \<open>\<^verbatim>\<open>s.substring(a, b)\<close>: both arguments are clamped to \<open>[0, length]\<close> and swapped
  when the first is the larger. \<^verbatim>\<open>s.substring(a)\<close> runs to the end.\<close>

definition clampIdx :: "string \<Rightarrow> int \<Rightarrow> nat" where
  "clampIdx s i = nat (max 0 (min i (int (length s))))"

definition substring :: "string \<Rightarrow> int \<Rightarrow> int \<Rightarrow> string" where
  "substring s a b =
     (let lo = min (clampIdx s a) (clampIdx s b); hi = max (clampIdx s a) (clampIdx s b)
      in take (hi - lo) (drop lo s))"

definition substringFrom :: "string \<Rightarrow> int \<Rightarrow> string" where
  "substringFrom s a = drop (clampIdx s a) s"

text \<open>\<^verbatim>\<open>s.indexOf(p, from)\<close>: the first index at or after \<open>from\<close> where \<open>p\<close> occurs,
  \<open>-1\<close> when there is none.\<close>

fun findFrom :: "string \<Rightarrow> string \<Rightarrow> nat option" where
  "findFrom p [] = (if p = [] then Some 0 else None)"
| "findFrom p (c # cs) =
     (if prefix p (c # cs) then Some 0 else map_option Suc (findFrom p cs))"

definition indexOfFrom :: "string \<Rightarrow> string \<Rightarrow> int \<Rightarrow> int" where
  "indexOfFrom s p from =
     (case findFrom p (drop (clampIdx s from) s) of
        None \<Rightarrow> - 1
      | Some j \<Rightarrow> int (clampIdx s from + j))"

definition indexOf :: "string \<Rightarrow> string \<Rightarrow> int" where
  "indexOf s p = indexOfFrom s p 0"

definition includesStr :: "string \<Rightarrow> string \<Rightarrow> bool" where
  "includesStr s p = (findFrom p s \<noteq> None)"

definition startsWith :: "string \<Rightarrow> string \<Rightarrow> bool" where
  "startsWith s p = prefix p s"

definition trim :: "string \<Rightarrow> string" where
  "trim s = rev (dropWhile is_space (rev (dropWhile is_space s)))"

text \<open>\<^verbatim>\<open>s.split('|')\<close>: the empty string gives one empty segment.\<close>

fun splitOn :: "char \<Rightarrow> string \<Rightarrow> string list" where
  "splitOn c [] = [[]]"
| "splitOn c (x # xs) =
     (if x = c then [] # splitOn c xs
      else (case splitOn c xs of [] \<Rightarrow> [[x]] | p # ps \<Rightarrow> (x # p) # ps))"

section \<open>The delimiter scans\<close>

text \<open>
  Seven loops of the program have the same shape (in \<^verbatim>\<open>parseArticleDataPattern\<close> on
  braces, in \<^verbatim>\<open>parseMacroCallPattern\<close> on parentheses, in \<^verbatim>\<open>findContentSectionsEnd\<close>
  and four times in \<^verbatim>\<open>parseContentSections\<close> on brackets):
  \<^verbatim>\<open>
  while (pos < content.length && braceDepth > 0) {
    if (content[pos] === '{') braceDepth++;
    else if (content[pos] === '}') braceDepth--;
    pos++;
  }
  \<close>
  \<open>scanLoop\<close> is that loop, with the two delimiter characters as parameters; it returns
  the values of \<open>pos\<close> and of the depth after the loop. \<open>scanSteps\<close> counts the
  iterations of the same loop.
\<close>

function scanLoop :: "char \<Rightarrow> char \<Rightarrow> string \<Rightarrow> int \<Rightarrow> int \<Rightarrow> int \<times> int" where
  "scanLoop opn cls s pos depth =
     (if pos < int (length s) \<and> depth > 0 then
        (if charAt s pos = Some opn then scanLoop opn cls s (pos + 1) (depth + 1)
         else if charAt s pos = Some cls then scanLoop opn cls s (pos + 1) (depth - 1)
         else scanLoop opn cls s (pos + 1) depth)
      else (pos, depth))"
  by pat_completeness auto
termination
  by (relation "measure (\<lambda>(opn, cls, s, pos, depth). nat (int (length s) - pos))") auto

function scanSteps :: "char \<Rightarrow> char \<Rightarrow> string \<Rightarrow> int \<Rightarrow> int \<Rightarrow> nat" where
  "scanSteps opn cls s pos depth =
     (if pos < int (length s) \<and> depth > 0 then
        (if charAt s pos = Some opn then Suc (scanSteps opn cls s (pos + 1) (depth + 1))
         else if charAt s pos = Some cls then Suc (scanSteps opn cls s (pos + 1) (depth - 1))
         else Suc (scanSteps opn cls s (pos + 1) depth))
      else 0)"
  by pat_completeness auto
termination
  by (relation "measure (\<lambda>(opn, cls, s, pos, depth). nat (int (length s) - pos))") auto

declare scanLoop.simps [simp del] scanSteps.simps [simp del]

text \<open>
  The scan that section 4.1 of the specification describes, written from its words: it
  tracks the nesting depth and skips single-quoted regions, toggling an in-string flag
  on each quote that no backslash immediately precedes. It is here to be compared
  with \<open>scanLoop\<close>.
\<close>

function spec_quoteAwareScan :: "char \<Rightarrow> char \<Rightarrow> string \<Rightarrow> int \<Rightarrow> int \<Rightarrow> bool \<Rightarrow> int \<times> int" where
  "spec_quoteAwareScan opn cls s pos depth inString =
     (if pos < int (length s) \<and> depth > 0 then
        (if charAt s pos = Some SQ \<and> charAt s (pos - 1) \<noteq> Some BS
           then spec_quoteAwareScan opn cls s (pos + 1) depth (\<not> inString)
         else if inString then spec_quoteAwareScan opn cls s (pos + 1) depth inString
         else if charAt s pos = Some opn then spec_quoteAwareScan opn cls s (pos + 1) (depth + 1) inString
         else if charAt s pos = Some cls then spec_quoteAwareScan opn cls s (pos + 1) (depth - 1) inString
         else spec_quoteAwareScan opn cls s (pos + 1) depth inString)
      else (pos, depth))"
  by pat_completeness auto
termination
  by (relation "measure (\<lambda>(opn, cls, s, pos, depth, inString). nat (int (length s) - pos))") auto

declare spec_quoteAwareScan.simps [simp del]

section \<open>Regular expressions of the program\<close>

text \<open>
  Each regular expression of the program is written as a matcher: a function from the
  text at the position tried to the captured groups (and, where the caller goes on after
  the match, the text after it), \<open>None\<close> when the expression does not match at that
  position. The pieces below are deterministic, so the matcher returns what the
  backtracking engine returns: in every expression of the program a greedy \<^verbatim>\<open>\s*\<close> or
  \<^verbatim>\<open>\s+\<close> is followed by a character that is no white space, a greedy \<^verbatim>\<open>[^c]*\<close> is
  followed by \<^verbatim>\<open>c\<close>, and the alternatives of \<^verbatim>\<open>(?:[^'\\]|\\.)*\<close> start with different
  characters, so giving back characters never leads to another match. A lazy
  \<^verbatim>\<open>[\s\S]*?\<close> stops at the first position where the rest of the expression matches.
\<close>

definition lit :: "string \<Rightarrow> string \<Rightarrow> string option" where
  "lit p s = (if prefix p s then Some (drop (length p) s) else None)"

text \<open>\<^verbatim>\<open>\s*\<close> and \<^verbatim>\<open>\s+\<close>.\<close>

definition ws0 :: "string \<Rightarrow> string" where
  "ws0 s = dropWhile is_space s"

definition ws1 :: "string \<Rightarrow> string option" where
  "ws1 s = (case s of [] \<Rightarrow> None | c # cs \<Rightarrow> if is_space c then Some (ws0 cs) else None)"

text \<open>\<^verbatim>\<open>([^q]*)q\<close>: the capture and the text after the closing \<open>q\<close>.\<close>

fun upTo :: "char \<Rightarrow> string \<Rightarrow> (string \<times> string) option" where
  "upTo q [] = None"
| "upTo q (c # cs) =
     (if c = q then Some ([], cs)
      else map_option (\<lambda>(b, r). (c # b, r)) (upTo q cs))"

text \<open>\<^verbatim>\<open>((?:[^'\\]|\\.)*)'\<close>: the capture and the text after the closing quote. The flag
  says whether the expression has the \<^verbatim>\<open>s\<close> flag (then \<^verbatim>\<open>.\<close> matches a line terminator).\<close>

fun quotedBody :: "bool \<Rightarrow> string \<Rightarrow> (string \<times> string) option" where
  "quotedBody dotall [] = None"
| "quotedBody dotall [c] = (if c = SQ then Some ([], []) else None)"
| "quotedBody dotall (c # d # ds) =
     (if c = SQ then Some ([], d # ds)
      else if c = BS then
        (if \<not> dotall \<and> is_line_term d then None
         else map_option (\<lambda>(b, r). (c # d # b, r)) (quotedBody dotall ds))
      else map_option (\<lambda>(b, r). (c # b, r)) (quotedBody dotall (d # ds)))"

text \<open>A lazy \<^verbatim>\<open>([\s\S]*?)\<close> before the rest \<open>m\<close> of an expression: the capture and the
  result of \<open>m\<close> at the first position where \<open>m\<close> matches.\<close>

fun lazyUntil :: "(string \<Rightarrow> 'a option) \<Rightarrow> string \<Rightarrow> (string \<times> 'a) option" where
  "lazyUntil m [] = map_option (Pair []) (m [])"
| "lazyUntil m (c # cs) =
     (case m (c # cs) of
        Some a \<Rightarrow> Some ([], a)
      | None \<Rightarrow> map_option (\<lambda>(b, a). (c # b, a)) (lazyUntil m cs))"

text \<open>A lazy \<^verbatim>\<open>.*?\<close> (no \<^verbatim>\<open>s\<close> flag) before the rest \<open>m\<close>: it does not pass a line
  terminator.\<close>

fun dotLazy :: "(string \<Rightarrow> 'a option) \<Rightarrow> string \<Rightarrow> 'a option" where
  "dotLazy m [] = m []"
| "dotLazy m (c # cs) =
     (case m (c # cs) of
        Some a \<Rightarrow> Some a
      | None \<Rightarrow> if is_line_term c then None else dotLazy m cs)"

text \<open>\<^verbatim>\<open>text.match(re)\<close> without the \<^verbatim>\<open>g\<close> flag: the leftmost position where the
  expression matches.\<close>

fun firstMatch :: "(string \<Rightarrow> 'a option) \<Rightarrow> string \<Rightarrow> 'a option" where
  "firstMatch m [] = m []"
| "firstMatch m (c # cs) =
     (case m (c # cs) of Some a \<Rightarrow> Some a | None \<Rightarrow> firstMatch m cs)"

text \<open>
  \<^verbatim>\<open>while ((x = re.exec(text)) !== null)\<close> with the \<^verbatim>\<open>g\<close> flag: the matches from left to
  right, each search starting where the previous match ended. The matcher returns the
  text after its match. No expression of the program matches the empty string, so the
  branch for a match that consumes nothing is never taken by the program; it is there
  for the termination of the definition.
\<close>

function allMatches :: "(string \<Rightarrow> ('a \<times> string) option) \<Rightarrow> string \<Rightarrow> 'a list" where
  "allMatches m s =
     (case s of
        [] \<Rightarrow> []
      | c # cs \<Rightarrow>
          (case m s of
             Some (a, r) \<Rightarrow>
               if length r < length s then a # allMatches m r else a # allMatches m cs
           | None \<Rightarrow> allMatches m cs))"
  by pat_completeness auto
termination
  by (relation "measure (\<lambda>(m, s). length s)") auto

text \<open>\<^verbatim>\<open>text.replace(re, rep)\<close> with the \<^verbatim>\<open>g\<close> flag; the matcher returns the text after
  its match.\<close>

function replaceAll :: "(string \<Rightarrow> string option) \<Rightarrow> string \<Rightarrow> string \<Rightarrow> string" where
  "replaceAll m rep s =
     (case s of
        [] \<Rightarrow> []
      | c # cs \<Rightarrow>
          (case m s of
             Some r \<Rightarrow>
               if length r < length s then rep @ replaceAll m rep r
               else rep @ c # replaceAll m rep cs
           | None \<Rightarrow> c # replaceAll m rep cs))"
  by pat_completeness auto
termination
  by (relation "measure (\<lambda>(m, rep, s). length s)") auto

declare allMatches.simps [simp del] replaceAll.simps [simp del]

text \<open>\<^verbatim>\<open>.replace(/\\'/g, "'")\<close> and \<^verbatim>\<open>.replace(/\\n/g, '\n')\<close>: a backslash followed by a
  quote becomes a quote; a backslash followed by the letter n becomes a line feed.\<close>

definition unescapeQuotes :: "string \<Rightarrow> string" where
  "unescapeQuotes s = replaceAll (lit [BS, SQ]) [SQ] s"

definition unescapeNewlines :: "string \<Rightarrow> string" where
  "unescapeNewlines s = replaceAll (lit [BS, CHR ''n'']) [CHR 0x0A] s"

section \<open>extractStringValue\<close>


definition kvAt :: "string \<Rightarrow> string \<Rightarrow> string option" where
  "kvAt key s =
     do {
       r \<leftarrow> lit (SQ # key @ [SQ]) s;
       r \<leftarrow> lit '':'' (ws0 r);
       r \<leftarrow> lit [SQ] (ws0 r);
       (v, _) \<leftarrow> quotedBody True r;
       Some v
     }"

definition extractStringValue :: "string \<Rightarrow> string \<Rightarrow> string" where
  "extractStringValue text key =
     (case firstMatch (kvAt key) text of
        Some v \<Rightarrow> unescapeNewlines (unescapeQuotes v)
      | None \<Rightarrow> [])"

section \<open>splitTopLevelObjects\<close>

text \<open>
  \<^verbatim>\<open>
  let depth = 0; let start = -1;
  for (let i = 0; i < str.length; i++) {
    if (str[i] === '{') { if (depth === 0) start = i; depth++; }
    else if (str[i] === '}') {
      depth--;
      if (depth === 0 && start !== -1) { objects.push(str.substring(start, i + 1)); start = -1; }
    }
  }
  \<close>
\<close>

function splitLoop :: "string \<Rightarrow> int \<Rightarrow> int \<Rightarrow> int \<Rightarrow> string list \<Rightarrow> string list" where
  "splitLoop str i depth start objects =
     (if i < int (length str) then
        (if charAt str i = Some CHR ''{'' then
           splitLoop str (i + 1) (depth + 1) (if depth = 0 then i else start) objects
         else if charAt str i = Some CHR ''}'' then
           (if depth - 1 = 0 \<and> start \<noteq> - 1
            then splitLoop str (i + 1) (depth - 1) (- 1) (objects @ [substring str start (i + 1)])
            else splitLoop str (i + 1) (depth - 1) start objects)
         else splitLoop str (i + 1) depth start objects)
      else objects)"
  by pat_completeness auto
termination
  by (relation "measure (\<lambda>(str, i, depth, start, objects). nat (int (length str) - i))") auto

declare splitLoop.simps [simp del]

definition splitTopLevelObjects :: "string \<Rightarrow> string list" where
  "splitTopLevelObjects str = splitLoop str 0 0 (- 1) []"

section \<open>The extracted article\<close>

text \<open>
  The objects the parser builds. A field that the program may leave \<^verbatim>\<open>undefined\<close> is an
  \<open>option\<close>. Isabelle needs distinct field names over all records, so each field carries
  a prefix for its record: \<open>list_\<close> for a list, \<open>sub_\<close> for a subsection, \<open>sec_\<close> for a
  section, \<open>toc_\<close> for an entry of the table of contents, \<open>pa_\<close> for the parsed article.
\<close>

record ContentList =
  list_title :: string
  list_ordered :: bool
  list_items :: "string list"

record Subsection =
  sub_subheading :: string
  sub_content :: string
  sub_additionalContent :: string
  sub_imageSrc :: "string option"
  sub_imageAlt :: "string option"
  sub_lists :: "ContentList list"

record Section =
  sec_id :: string
  sec_heading :: string
  sec_content :: string
  sec_additionalContent :: string
  sec_lists :: "ContentList list"
  sec_imageSrc :: "string option"
  sec_imageAlt :: "string option"
  sec_subsections :: "Subsection list"

record TocItem =
  toc_href :: string
  toc_title :: string

record ParsedArticle =
  pa_metaTitle :: "string option"
  pa_metaDescription :: "string option"
  pa_title :: "string option"
  pa_imagePath :: "string option"
  pa_imageAlt :: "string option"
  pa_introText :: "string option"
  pa_tocItems :: "TocItem list option"
  pa_contentSections :: "Section list option"
  pa_conclusion :: "string option"
  pa_rawHtml :: "string option"

text \<open>\<^verbatim>\<open>const result = {};\<close>\<close>

definition emptyResult :: ParsedArticle where
  "emptyResult =
     \<lparr> pa_metaTitle = None, pa_metaDescription = None, pa_title = None, pa_imagePath = None,
       pa_imageAlt = None, pa_introText = None, pa_tocItems = None, pa_contentSections = None,
       pa_conclusion = None, pa_rawHtml = None \<rparr>"

section \<open>parseContentSections\<close>

text \<open>The bracket scan that follows each \<^verbatim>\<open>indexOf('[', ...)\<close>: the text between the
  bracket at \<open>arrStart\<close> and the position before the one where the scan stopped,
  \<^verbatim>\<open>str.substring(arrStart + 1, pos - 1)\<close>.\<close>

definition bracketBody :: "string \<Rightarrow> int \<Rightarrow> string" where
  "bracketBody str arrStart =
     (let (pos, bracketDepth) = scanLoop CHR ''['' CHR '']'' str (arrStart + 1) 1
      in substring str (arrStart + 1) (pos - 1))"

text \<open>\<^verbatim>\<open>/'((?:[^'\\]|\\.)*)'/g\<close>, the expression of the items of a list (no \<^verbatim>\<open>s\<close> flag).\<close>

definition itemAt :: "string \<Rightarrow> (string \<times> string) option" where
  "itemAt s = do { r \<leftarrow> lit [SQ] s; quotedBody False r }"

text \<open>
  The items of a list of the \<^verbatim>\<open>lists\<close> field:
  \<^verbatim>\<open>
  while ((itemMatch = itemRegex.exec(itemsStr)) !== null) {
    const val = itemMatch[1].replace(/\\'/g, "'");
    if (val !== 'true' && val !== 'false' && val.length > 2) list.items.push(val);
  }
  \<close>
  and those of the legacy \<^verbatim>\<open>items\<close> array, where the test is \<^verbatim>\<open>val.length > 2\<close> alone.
\<close>

definition keepItem :: "string \<Rightarrow> bool" where
  "keepItem val = (val \<noteq> ''true'' \<and> val \<noteq> ''false'' \<and> length val > 2)"

definition extractItems :: "string \<Rightarrow> string list" where
  "extractItems itemsStr = filter keepItem (map unescapeQuotes (allMatches itemAt itemsStr))"

definition extractLegacyItems :: "string \<Rightarrow> string list" where
  "extractLegacyItems itemsStr =
     filter (\<lambda>val. length val > 2) (map unescapeQuotes (allMatches itemAt itemsStr))"

text \<open>One object of a \<^verbatim>\<open>lists\<close> array (the body of the loop over \<^verbatim>\<open>listObjects\<close>, before
  the test \<^verbatim>\<open>list.items.length > 0\<close>).\<close>

definition parseListObject :: "string \<Rightarrow> ContentList" where
  "parseListObject listStr =
     (let itemsStart = indexOf listStr (SQ # ''items'' @ [SQ]);
          itemsArrStart = (if itemsStart \<noteq> - 1 then indexOfFrom listStr ''['' itemsStart else - 1)
      in \<lparr> list_title = extractStringValue listStr ''title'',
           list_ordered = includesStr listStr (SQ # ''ordered'' @ [SQ] @ '': true''),
           list_items = (if itemsStart \<noteq> - 1 \<and> itemsArrStart \<noteq> - 1
                         then extractItems (bracketBody listStr itemsArrStart) else []) \<rparr>)"

text \<open>The \<^verbatim>\<open>lists\<close> field of a section or of a subsection (the program has the same code
  twice, at lines 661-712 and 751-795): a list is kept when it has an item.\<close>

definition parseLists :: "string \<Rightarrow> ContentList list" where
  "parseLists str =
     (let listsStart = indexOf str (SQ # ''lists'' @ [SQ]);
          listsArrStart = (if listsStart \<noteq> - 1 then indexOfFrom str ''['' listsStart else - 1)
      in if listsStart \<noteq> - 1 \<and> listsArrStart \<noteq> - 1
         then filter (\<lambda>l. length (list_items l) > 0)
                (map parseListObject (splitTopLevelObjects (bracketBody str listsArrStart)))
         else [])"

text \<open>\<^verbatim>\<open>/'image'\s*:\s*\{[\s\S]*?'src'\s*:\s*asset\(\s*'([^']*)'\s*\)[\s\S]*?'alt'\s*:\s*'([^']*)'/\<close>\<close>

definition altAt :: "string \<Rightarrow> string option" where
  "altAt s =
     do {
       r \<leftarrow> lit (SQ # ''alt'' @ [SQ]) s;
       r \<leftarrow> lit '':'' (ws0 r);
       r \<leftarrow> lit [SQ] (ws0 r);
       (alt, _) \<leftarrow> upTo SQ r;
       Some alt
     }"

text \<open>\<^verbatim>\<open>asset\(\s*'([^']*)'\s*\)\<close>\<close>

definition assetAt :: "string \<Rightarrow> (string \<times> string) option" where
  "assetAt s =
     do {
       r \<leftarrow> lit ''asset('' s;
       r \<leftarrow> lit [SQ] (ws0 r);
       (src, r) \<leftarrow> upTo SQ r;
       r \<leftarrow> lit '')'' (ws0 r);
       Some (src, r)
     }"

definition srcAltAt :: "string \<Rightarrow> (string \<times> string) option" where
  "srcAltAt s =
     do {
       r \<leftarrow> lit (SQ # ''src'' @ [SQ]) s;
       r \<leftarrow> lit '':'' (ws0 r);
       (src, r) \<leftarrow> assetAt (ws0 r);
       alt \<leftarrow> firstMatch altAt r;
       Some (src, alt)
     }"

definition objectImageAt :: "string \<Rightarrow> (string \<times> string) option" where
  "objectImageAt s =
     do {
       r \<leftarrow> lit (SQ # ''image'' @ [SQ]) s;
       r \<leftarrow> lit '':'' (ws0 r);
       r \<leftarrow> lit ''{'' (ws0 r);
       firstMatch srcAltAt r
     }"

text \<open>\<^verbatim>\<open>/'items'\s*:\s*\[([\s\S]*?)\]/\<close>, the legacy array of items of a subsection.\<close>

definition simpleListAt :: "string \<Rightarrow> string option" where
  "simpleListAt s =
     do {
       r \<leftarrow> lit (SQ # ''items'' @ [SQ]) s;
       r \<leftarrow> lit '':'' (ws0 r);
       r \<leftarrow> lit ''['' (ws0 r);
       (body, _) \<leftarrow> lazyUntil (lit '']'') r;
       Some body
     }"

text \<open>The legacy step of a subsection (lines 797-812), run on the lists found so far.\<close>

definition legacyLists :: "string \<Rightarrow> ContentList list \<Rightarrow> ContentList list" where
  "legacyLists subStr subLists =
     (if length subLists = 0 then
        (case firstMatch simpleListAt subStr of
           Some body \<Rightarrow>
             (let items = extractLegacyItems body
              in if length items > 0
                 then subLists @ [\<lparr> list_title = [], list_ordered = False, list_items = items \<rparr>]
                 else subLists)
         | None \<Rightarrow> subLists)
      else subLists)"

text \<open>One object of a \<^verbatim>\<open>subsections\<close> array (the body of the loop over \<^verbatim>\<open>subObjects\<close>).\<close>

definition parseSubsection :: "string \<Rightarrow> Subsection" where
  "parseSubsection subStr =
     (let subImgMatch = firstMatch objectImageAt subStr
      in \<lparr> sub_subheading = extractStringValue subStr ''subheading'',
           sub_content = extractStringValue subStr ''content'',
           sub_additionalContent = extractStringValue subStr ''additional_content'',
           sub_imageSrc = map_option fst subImgMatch,
           sub_imageAlt = map_option snd subImgMatch,
           sub_lists = legacyLists subStr (parseLists subStr) \<rparr>)"

definition parseSubsections :: "string \<Rightarrow> Subsection list" where
  "parseSubsections sectionStr =
     (let subStart = indexOf sectionStr (SQ # ''subsections'' @ [SQ]);
          subArrStart = (if subStart \<noteq> - 1 then indexOfFrom sectionStr ''['' subStart else - 1)
      in if subStart \<noteq> - 1 \<and> subArrStart \<noteq> - 1
         then map parseSubsection (splitTopLevelObjects (bracketBody sectionStr subArrStart))
         else [])"

text \<open>One object of the array of sections (the body of the loop over
  \<^verbatim>\<open>sectionObjects\<close>); every object is pushed.\<close>

definition parseSection :: "string \<Rightarrow> Section" where
  "parseSection sectionStr =
     (let sectionImgMatch = firstMatch objectImageAt sectionStr
      in \<lparr> sec_id = extractStringValue sectionStr ''id'',
           sec_heading = extractStringValue sectionStr ''heading'',
           sec_content = extractStringValue sectionStr ''content'',
           sec_additionalContent = extractStringValue sectionStr ''additional_content'',
           sec_lists = parseLists sectionStr,
           sec_imageSrc = map_option fst sectionImgMatch,
           sec_imageAlt = map_option snd sectionImgMatch,
           sec_subsections = parseSubsections sectionStr \<rparr>)"

text \<open>
  The loop that skips the first four quoted strings (in \<^verbatim>\<open>parseContentSections\<close> and in
  \<^verbatim>\<open>findContentSectionsEnd\<close>):
  \<^verbatim>\<open>
  while (i < text.length && stringCount < 4) {
    if (text[i] === "'" && (i === 0 || text[i - 1] !== '\\')) {
      inString = !inString;
      if (!inString) stringCount++;
    }
    i++;
  }
  \<close>
  and the loop \<^verbatim>\<open>while (i < text.length && text[i] !== '[') i++;\<close> after it.
\<close>

function skipStrings :: "string \<Rightarrow> int \<Rightarrow> nat \<Rightarrow> bool \<Rightarrow> int" where
  "skipStrings txt i stringCount inString =
     (if i < int (length txt) \<and> stringCount < 4 then
        (if charAt txt i = Some SQ \<and> (i = 0 \<or> charAt txt (i - 1) \<noteq> Some BS)
         then skipStrings txt (i + 1) (if inString then stringCount + 1 else stringCount) (\<not> inString)
         else skipStrings txt (i + 1) stringCount inString)
      else i)"
  by pat_completeness auto
termination
  by (relation "measure (\<lambda>(txt, i, stringCount, inString). nat (int (length txt) - i))") auto

function skipToBracket :: "string \<Rightarrow> int \<Rightarrow> int" where
  "skipToBracket txt i =
     (if i < int (length txt) \<and> charAt txt i \<noteq> Some CHR ''['' then skipToBracket txt (i + 1)
      else i)"
  by pat_completeness auto
termination
  by (relation "measure (\<lambda>(txt, i). nat (int (length txt) - i))") auto

declare skipStrings.simps [simp del] skipToBracket.simps [simp del]

definition sectionsArrStart :: "string \<Rightarrow> int" where
  "sectionsArrStart hashContent =
     (let csStart = indexOf hashContent (SQ # ''content_sections'' @ [SQ])
      in if csStart \<noteq> - 1 then indexOfFrom hashContent ''['' csStart
         else (let i = skipToBracket hashContent (skipStrings hashContent 0 0 False)
               in if i < int (length hashContent) then i else - 1))"

definition parseContentSections :: "string \<Rightarrow> Section list" where
  "parseContentSections hashContent =
     (let arrStart = sectionsArrStart hashContent
      in if arrStart = - 1 \<or> arrStart \<ge> int (length hashContent) then []
         else map parseSection (splitTopLevelObjects (bracketBody hashContent arrStart)))"

section \<open>The two grammars and the fallback\<close>

text \<open>The expressions of the table of contents, each with the \<^verbatim>\<open>g\<close> flag:
  \<^verbatim>\<open>/\{\s*'href'\s*:\s*'([^']*)'\s*,\s*'title'\s*:\s*'([^']*)'\s*\}/g\<close> and
  \<^verbatim>\<open>/\{\s*'title'\s*:\s*'([^']*)'\s*,\s*'href'\s*:\s*'([^']*)'\s*\}/g\<close>.
  \<open>pairAt k1 k2\<close> is the expression with the keys \<open>k1\<close> and \<open>k2\<close> in that order; it
  returns the two captures in the order of the text.\<close>

definition pairAt :: "string \<Rightarrow> string \<Rightarrow> string \<Rightarrow> ((string \<times> string) \<times> string) option" where
  "pairAt k1 k2 s =
     do {
       r \<leftarrow> lit ''{'' s;
       r \<leftarrow> lit (SQ # k1 @ [SQ]) (ws0 r);
       r \<leftarrow> lit '':'' (ws0 r);
       r \<leftarrow> lit [SQ] (ws0 r);
       (v1, r) \<leftarrow> upTo SQ r;
       r \<leftarrow> lit '','' (ws0 r);
       r \<leftarrow> lit (SQ # k2 @ [SQ]) (ws0 r);
       r \<leftarrow> lit '':'' (ws0 r);
       r \<leftarrow> lit [SQ] (ws0 r);
       (v2, r) \<leftarrow> upTo SQ r;
       r \<leftarrow> lit ''}'' (ws0 r);
       Some ((v1, v2), r)
     }"

text \<open>\<^verbatim>\<open>/'image'\s*:\s*asset\(\s*'([^']*)'\s*\)/\<close>\<close>

definition imageAssetAt :: "string \<Rightarrow> string option" where
  "imageAssetAt s =
     do {
       r \<leftarrow> lit (SQ # ''image'' @ [SQ]) s;
       r \<leftarrow> lit '':'' (ws0 r);
       (src, _) \<leftarrow> assetAt (ws0 r);
       Some src
     }"

text \<open>
  \<^verbatim>\<open>parseArticleDataPattern(content, setStart, result)\<close>: the object literal runs from
  the second brace at or after \<open>setStart\<close> to where the brace scan stops.
\<close>

definition articleHash :: "string \<Rightarrow> int \<Rightarrow> string" where
  "articleHash content setStart =
     (let afterSet = indexOfFrom content ''{'' (indexOfFrom content ''{'' setStart + 1);
          (pos, braceDepth) = scanLoop CHR ''{'' CHR ''}'' content (afterSet + 1) 1
      in substring content afterSet pos)"

definition parseArticleDataPattern :: "string \<Rightarrow> int \<Rightarrow> ParsedArticle \<Rightarrow> ParsedArticle" where
  "parseArticleDataPattern content setStart result =
     (let hashContent = articleHash content setStart;
          imageMatch = firstMatch imageAssetAt hashContent
      in result
           \<lparr> pa_title := Some (extractStringValue hashContent ''title''),
             pa_imagePath := (case imageMatch of Some src \<Rightarrow> Some src | None \<Rightarrow> pa_imagePath result),
             pa_imageAlt := Some (extractStringValue hashContent ''image_alt''),
             pa_introText := Some (extractStringValue hashContent ''intro_text''),
             pa_tocItems := Some (map (\<lambda>(h, t). \<lparr> toc_href = h, toc_title = t \<rparr>)
                                   (allMatches (pairAt ''href'' ''title'') hashContent)),
             pa_contentSections := Some (parseContentSections hashContent),
             pa_conclusion := Some (extractStringValue hashContent ''conclusion'') \<rparr>)"

text \<open>\<^verbatim>\<open>findContentSectionsEnd(text)\<close>\<close>

definition findContentSectionsEnd :: "string \<Rightarrow> int" where
  "findContentSectionsEnd txt =
     (let i = skipToBracket txt (skipStrings txt 0 0 False)
      in if i \<ge> int (length txt) then - 1
         else fst (scanLoop CHR ''['' CHR '']'' txt (i + 1) 1))"

text \<open>The expressions of the positional arguments, all with the \<^verbatim>\<open>s\<close> flag:
  \<^verbatim>\<open>/^\s*'((?:[^'\\]|\\.)*)'/s\<close> (tried at the start of the text only),
  \<^verbatim>\<open>/,\s*'((?:[^'\\]|\\.)*)'/s\<close> and
  \<^verbatim>\<open>/,\s*'(?:[^'\\]|\\.)*'\s*,\s*'((?:[^'\\]|\\.)*)'/s\<close>.\<close>

definition leadingStringAt :: "string \<Rightarrow> string option" where
  "leadingStringAt s =
     do {
       r \<leftarrow> lit [SQ] (ws0 s);
       (v, _) \<leftarrow> quotedBody True r;
       Some v
     }"

definition commaStringAt :: "string \<Rightarrow> (string \<times> string) option" where
  "commaStringAt s =
     do {
       r \<leftarrow> lit '','' s;
       r \<leftarrow> lit [SQ] (ws0 r);
       quotedBody True r
     }"

definition secondCommaStringAt :: "string \<Rightarrow> string option" where
  "secondCommaStringAt s =
     do {
       (_, r) \<leftarrow> commaStringAt s;
       (v, _) \<leftarrow> commaStringAt (ws0 r);
       Some v
     }"

text \<open>
  The table of contents of the positional form (lines 522-550). \<open>afterSections\<close> is the
  text searched first, \<^verbatim>\<open>contentSectionsEnd > 0 ? macroArgs.substring(contentSectionsEnd) : macroArgs\<close>.
  The items are the pairs in the order title, href of that text; when there is none, the
  pairs in the order href, title of that text; when there is still none, the pairs in
  the order title, href of all the arguments whose href starts with \<^verbatim>\<open>#\<close>.
\<close>

definition afterSections :: "string \<Rightarrow> string" where
  "afterSections macroArgs =
     (let contentSectionsEnd = findContentSectionsEnd macroArgs
      in if contentSectionsEnd > 0 then substringFrom macroArgs contentSectionsEnd else macroArgs)"

definition macroTocItems :: "string \<Rightarrow> TocItem list" where
  "macroTocItems macroArgs =
     (let items1 = map (\<lambda>(t, h). \<lparr> toc_href = h, toc_title = t \<rparr>)
                     (allMatches (pairAt ''title'' ''href'') (afterSections macroArgs));
          items2 = (if length items1 = 0
                    then items1 @ map (\<lambda>(h, t). \<lparr> toc_href = h, toc_title = t \<rparr>)
                                    (allMatches (pairAt ''href'' ''title'') (afterSections macroArgs))
                    else items1)
      in if length items2 = 0
         then items2 @ map (\<lambda>(t, h). \<lparr> toc_href = h, toc_title = t \<rparr>)
                         (filter (\<lambda>(t, h). startsWith h ''#'')
                            (allMatches (pairAt ''title'' ''href'') macroArgs))
         else items2)"

text \<open>\<^verbatim>\<open>parseMacroCallPattern(content, macroStart, result)\<close>\<close>

definition macroArguments :: "string \<Rightarrow> int \<Rightarrow> string" where
  "macroArguments content macroStart =
     (let parenStart = indexOfFrom content ''('' macroStart;
          (pos, parenDepth) = scanLoop CHR ''('' CHR '')'' content (parenStart + 1) 1
      in substring content (parenStart + 1) (pos - 1))"

definition parseMacroCallPattern :: "string \<Rightarrow> int \<Rightarrow> ParsedArticle \<Rightarrow> ParsedArticle" where
  "parseMacroCallPattern content macroStart result =
     (let macroArgs = macroArguments content macroStart;
          titleMatch = leadingStringAt macroArgs;
          imageMatch = firstMatch assetAt macroArgs;
          afterAsset = indexOfFrom macroArgs '')'' (indexOf macroArgs ''asset('') + 1;
          afterAssetStr = substringFrom macroArgs afterAsset;
          altMatch = firstMatch commaStringAt afterAssetStr;
          introMatch = firstMatch secondCommaStringAt afterAssetStr
      in result
           \<lparr> pa_title := (case titleMatch of Some v \<Rightarrow> Some (unescapeQuotes v) | None \<Rightarrow> pa_title result),
             pa_imagePath := (case imageMatch of Some (src, _) \<Rightarrow> Some src | None \<Rightarrow> pa_imagePath result),
             pa_imageAlt := (case altMatch of Some (v, _) \<Rightarrow> Some (unescapeQuotes v) | None \<Rightarrow> pa_imageAlt result),
             pa_introText := (case introMatch of Some v \<Rightarrow> Some (unescapeQuotes v) | None \<Rightarrow> pa_introText result),
             pa_contentSections := Some (parseContentSections macroArgs),
             pa_tocItems := Some (macroTocItems macroArgs) \<rparr>)"

text \<open>
  \<^verbatim>\<open>extractFallbackContent(content, result)\<close>:
  \<^verbatim>\<open>
  const workareaMatch = content.match(/\{%\s*block\s+workarea_content\s*%\}([\s\S]*?)\{%\s*endblock/);
  if (workareaMatch) {
    result.rawHtml = workareaMatch[1].replace(/\{\{.*?\}\}/g, '').replace(/\{%.*?%\}/g, '').trim();
  }
  \<close>
  \<open>blockAt name\<close> is the expression \<^verbatim>\<open>\{%\s*block\s+name\s*%\}([\s\S]*?)\{%\s*endblock\<close>.
\<close>

definition endblockAt :: "string \<Rightarrow> unit option" where
  "endblockAt s =
     do {
       r \<leftarrow> lit ''{%'' s;
       r \<leftarrow> lit ''endblock'' (ws0 r);
       Some ()
     }"

definition blockAt :: "string \<Rightarrow> string \<Rightarrow> string option" where
  "blockAt name s =
     do {
       r \<leftarrow> lit ''{%'' s;
       r \<leftarrow> lit ''block'' (ws0 r);
       r \<leftarrow> ws1 r;
       r \<leftarrow> lit name r;
       r \<leftarrow> lit ''%}'' (ws0 r);
       (body, _) \<leftarrow> lazyUntil endblockAt r;
       Some body
     }"

text \<open>\<^verbatim>\<open>/\{\{.*?\}\}/g\<close> and \<^verbatim>\<open>/\{%.*?%\}/g\<close>\<close>

definition printTagAt :: "string \<Rightarrow> string option" where
  "printTagAt s = do { r \<leftarrow> lit ''{{'' s; dotLazy (lit ''}}'') r }"

definition directiveAt :: "string \<Rightarrow> string option" where
  "directiveAt s = do { r \<leftarrow> lit ''{%'' s; dotLazy (lit ''%}'') r }"

definition extractFallbackContent :: "string \<Rightarrow> ParsedArticle \<Rightarrow> ParsedArticle" where
  "extractFallbackContent content result =
     (case firstMatch (blockAt ''workarea_content'') content of
        Some body \<Rightarrow>
          result \<lparr> pa_rawHtml := Some (trim (replaceAll directiveAt [] (replaceAll printTagAt [] body))) \<rparr>
      | None \<Rightarrow> result)"

text \<open>
  \<^verbatim>\<open>parseTwigFile(filePath)\<close>, as a function of the content of the file (the program
  reads it with \<^verbatim>\<open>fs.readFileSync\<close>). The expression of the description is
  \<^verbatim>\<open>/name="description"\s+content="([^"]*)"/\<close>.
\<close>

definition metaDescAt :: "string \<Rightarrow> string option" where
  "metaDescAt s =
     do {
       r \<leftarrow> lit (''name='' @ [DQ] @ ''description'' @ [DQ]) s;
       r \<leftarrow> ws1 r;
       r \<leftarrow> lit (''content='' @ [DQ]) r;
       (v, _) \<leftarrow> upTo DQ r;
       Some v
     }"

definition parseTwigFile :: "string \<Rightarrow> ParsedArticle" where
  "parseTwigFile content =
     (let result = emptyResult;
          result = (case firstMatch (blockAt ''title'') content of
                      Some t \<Rightarrow> result \<lparr> pa_metaTitle :=
                                  Some (trim (replaceAll ws1 '' '' (replaceAll printTagAt [] t))) \<rparr>
                    | None \<Rightarrow> result);
          result = (case firstMatch metaDescAt content of
                      Some d \<Rightarrow> result \<lparr> pa_metaDescription := Some (trim d) \<rparr>
                    | None \<Rightarrow> result);
          setStart = indexOf content ''{% set article_data'';
          macroStart = indexOf content ''blog_macros.blog_content(''
      in if setStart \<noteq> - 1 then parseArticleDataPattern content setStart result
         else if macroStart \<noteq> - 1 then parseMacroCallPattern content macroStart result
         else extractFallbackContent content result)"

section \<open>parseInlineHtml\<close>

text \<open>
  A text node \<^verbatim>\<open>{ type: 'text', text, bold, italic }\<close>; a key that is absent is \<open>False\<close>.
  A block is \<^verbatim>\<open>{ type: 'heading', level, children }\<close>, \<^verbatim>\<open>{ type: 'paragraph', children }\<close> or
  \<^verbatim>\<open>{ type: 'list', format, children }\<close>, where the format is \<^verbatim>\<open>'ordered'\<close> (here \<open>True\<close>)
  or \<^verbatim>\<open>'unordered'\<close> and each child is a list item with its text nodes.
\<close>

record TextRun =
  run_text :: string
  run_bold :: bool
  run_italic :: bool

datatype Block =
    Heading nat "TextRun list"
  | Paragraph "TextRun list"
  | ListBlock bool "TextRun list list"

definition plainRun :: "string \<Rightarrow> TextRun" where
  "plainRun t = \<lparr> run_text = t, run_bold = False, run_italic = False \<rparr>"

definition boldRun :: "string \<Rightarrow> TextRun" where
  "boldRun t = \<lparr> run_text = t, run_bold = True, run_italic = False \<rparr>"

definition italicRun :: "string \<Rightarrow> TextRun" where
  "italicRun t = \<lparr> run_text = t, run_bold = False, run_italic = True \<rparr>"

text \<open>
  The expression of \<^verbatim>\<open>text.split\<close>:
  \<^verbatim>\<open>(<a\s[^>]*>[\s\S]*?<\/a>|<strong>[\s\S]*?<\/strong>|<b>[\s\S]*?<\/b>|<em>[\s\S]*?<\/em>|<i>[\s\S]*?<\/i>)\<close>.
  \<open>tagged opn cls\<close> is \<^verbatim>\<open>opn[\s\S]*?cls\<close>. The five alternatives start differently, so
  at most one of them matches at a position. The matcher returns the text after the
  match.
\<close>

definition tagged :: "string \<Rightarrow> string \<Rightarrow> string \<Rightarrow> string option" where
  "tagged opn cls s =
     do {
       r \<leftarrow> lit opn s;
       (_, r) \<leftarrow> lazyUntil (lit cls) r;
       Some r
     }"

definition anchorAt :: "string \<Rightarrow> string option" where
  "anchorAt s =
     do {
       r \<leftarrow> lit ''<a'' s;
       r \<leftarrow> (case r of [] \<Rightarrow> None | c # cs \<Rightarrow> if is_space c then Some cs else None);
       (_, r) \<leftarrow> upTo CHR ''>'' r;
       (_, r) \<leftarrow> lazyUntil (lit ''</a>'') r;
       Some r
     }"

definition orElse :: "'a option \<Rightarrow> 'a option \<Rightarrow> 'a option" where
  "orElse a b = (case a of Some x \<Rightarrow> Some x | None \<Rightarrow> b)"

definition inlineTagAt :: "string \<Rightarrow> string option" where
  "inlineTagAt s =
     orElse (anchorAt s)
       (orElse (tagged ''<strong>'' ''</strong>'' s)
          (orElse (tagged ''<b>'' ''</b>'' s)
             (orElse (tagged ''<em>'' ''</em>'' s) (tagged ''<i>'' ''</i>'' s))))"

text \<open>\<^verbatim>\<open>text.split(re)\<close> where the whole expression is one capturing group: the pieces
  between the matches and the matches themselves, in the order of the text. \<open>cur\<close> is
  the piece being read.\<close>

function splitKeep :: "(string \<Rightarrow> string option) \<Rightarrow> string \<Rightarrow> string \<Rightarrow> string list" where
  "splitKeep m cur s =
     (case s of
        [] \<Rightarrow> [cur]
      | c # cs \<Rightarrow>
          (case m s of
             Some r \<Rightarrow>
               if length r < length s
               then cur # take (length s - length r) s # splitKeep m [] r
               else splitKeep m (cur @ [c]) cs
           | None \<Rightarrow> splitKeep m (cur @ [c]) cs))"
  by pat_completeness auto
termination
  by (relation "measure (\<lambda>(m, cur, s). length s)") auto

declare splitKeep.simps [simp del]

text \<open>\<^verbatim>\<open>/<a\s+href="([^"]*)"[^>]*>([\s\S]*?)<\/a>/\<close>: the two captures.\<close>

definition linkAt :: "string \<Rightarrow> (string \<times> string) option" where
  "linkAt s =
     do {
       r \<leftarrow> lit ''<a'' s;
       r \<leftarrow> ws1 r;
       r \<leftarrow> lit (''href='' @ [DQ]) r;
       (href, r) \<leftarrow> upTo DQ r;
       (_, r) \<leftarrow> upTo CHR ''>'' r;
       (inner, _) \<leftarrow> lazyUntil (lit ''</a>'') r;
       Some (href, inner)
     }"

text \<open>\<^verbatim>\<open>/<(?:strong|b)>([\s\S]*?)<\/(?:strong|b)>/\<close> and \<^verbatim>\<open>/<(?:em|i)>([\s\S]*?)<\/(?:em|i)>/\<close>:
  the capture.\<close>

definition eitherTagAt :: "string \<Rightarrow> string \<Rightarrow> string \<Rightarrow> string option" where
  "eitherTagAt n1 n2 s =
     do {
       r \<leftarrow> orElse (lit (''<'' @ n1 @ ''>'') s) (lit (''<'' @ n2 @ ''>'') s);
       (inner, _) \<leftarrow> lazyUntil (\<lambda>t. orElse (lit (''</'' @ n1 @ ''>'') t) (lit (''</'' @ n2 @ ''>'') t)) r;
       Some inner
     }"

text \<open>\<^verbatim>\<open>/<\/?strong>|<\/?b>|<\/?em>|<\/?i>/g\<close>, removed from the text of a link.\<close>

definition emphasisTagAt :: "string \<Rightarrow> string option" where
  "emphasisTagAt s =
     orElse (lit ''<strong>'' s) (orElse (lit ''</strong>'' s)
       (orElse (lit ''<b>'' s) (orElse (lit ''</b>'' s)
          (orElse (lit ''<em>'' s) (orElse (lit ''</em>'' s)
             (orElse (lit ''<i>'' s) (lit ''</i>'' s)))))))"

text \<open>The body of the loop over the parts: the node pushed for a part, if any.\<close>

definition partRun :: "string \<Rightarrow> TextRun option" where
  "partRun part =
     (if part = [] then None
      else case firstMatch linkAt part of
        Some (href, inner) \<Rightarrow>
          (let innerText = trim (replaceAll emphasisTagAt [] inner);
               isBold = (includesStr inner ''<strong>'' \<or> includesStr inner ''<b>'')
           in if isBold then Some (boldRun innerText) else Some (plainRun innerText))
      | None \<Rightarrow>
          (case firstMatch (eitherTagAt ''strong'' ''b'') part of
             Some t \<Rightarrow> Some (boldRun t)
           | None \<Rightarrow>
               (case firstMatch (eitherTagAt ''em'' ''i'') part of
                  Some t \<Rightarrow> Some (italicRun t)
                | None \<Rightarrow> if trim part \<noteq> [] then Some (plainRun part) else None)))"

definition inlineChildren :: "string \<Rightarrow> TextRun list" where
  "inlineChildren txt = List.map_filter partRun (splitKeep inlineTagAt [] txt)"

definition parseInlineHtml :: "string \<Rightarrow> TextRun list" where
  "parseInlineHtml txt =
     (let children = inlineChildren txt
      in if length children = 0 then [plainRun txt] else children)"

section \<open>buildRichTextContent\<close>

text \<open>
  The program pushes onto the array \<^verbatim>\<open>blocks\<close>; the model passes the array along and
  returns it with the blocks pushed. \<^verbatim>\<open>addParagraphs(blocks, text)\<close>:
  \<^verbatim>\<open>
  const paragraphs = text.split('|');
  for (const p of paragraphs) {
    const trimmed = p.trim();
    if (trimmed) blocks.push({ type: 'paragraph', children: parseInlineHtml(trimmed) });
  }
  \<close>
  The program has the same loop inline for the intro text and for the conclusion.
\<close>

definition pushParagraph :: "Block list \<Rightarrow> string \<Rightarrow> Block list" where
  "pushParagraph blocks p =
     (let trimmed = trim p
      in if trimmed \<noteq> [] then blocks @ [Paragraph (parseInlineHtml trimmed)] else blocks)"

definition addParagraphs :: "Block list \<Rightarrow> string \<Rightarrow> Block list" where
  "addParagraphs blocks txt = foldl pushParagraph blocks (splitOn CHR ''|'' txt)"

text \<open>The body of the loop over the lists of a section or of a subsection.\<close>

definition pushList :: "Block list \<Rightarrow> ContentList \<Rightarrow> Block list" where
  "pushList blocks l =
     (let blocks = (if list_title l \<noteq> [] then blocks @ [Paragraph [boldRun (list_title l)]]
                    else blocks)
      in blocks @ [ListBlock (list_ordered l)
                     (map (\<lambda>item. parseInlineHtml (unescapeQuotes item)) (list_items l))])"

text \<open>The body of the loop over the subsections of a section.\<close>

definition pushSubsection :: "Block list \<Rightarrow> Subsection \<Rightarrow> Block list" where
  "pushSubsection blocks sub =
     (let blocks = (if sub_subheading sub \<noteq> [] then blocks @ [Heading 3 [plainRun (sub_subheading sub)]]
                    else blocks);
          blocks = (if sub_content sub \<noteq> [] then addParagraphs blocks (sub_content sub) else blocks);
          blocks = (if length (sub_lists sub) > 0 then foldl pushList blocks (sub_lists sub) else blocks);
          blocks = (if sub_additionalContent sub \<noteq> []
                    then addParagraphs blocks (sub_additionalContent sub) else blocks)
      in blocks)"

text \<open>The body of the loop over the sections.\<close>

definition pushSection :: "Block list \<Rightarrow> Section \<Rightarrow> Block list" where
  "pushSection blocks section =
     (let blocks = (if sec_heading section \<noteq> [] then blocks @ [Heading 2 [plainRun (sec_heading section)]]
                    else blocks);
          blocks = (if sec_content section \<noteq> [] then addParagraphs blocks (sec_content section) else blocks);
          blocks = (if length (sec_lists section) > 0 then foldl pushList blocks (sec_lists section)
                    else blocks);
          blocks = (if sec_additionalContent section \<noteq> []
                    then addParagraphs blocks (sec_additionalContent section) else blocks);
          blocks = foldl pushSubsection blocks (sec_subsections section)
      in blocks)"

text \<open>\<^verbatim>\<open>buildRichTextContent(parsed)\<close>. A field that is \<^verbatim>\<open>undefined\<close> or the empty string is
  falsy. The last step is the fallback for an article with \<^verbatim>\<open>rawHtml\<close> only:
  \<^verbatim>\<open>
  if (blocks.length === 0 && parsed.rawHtml) {
    blocks.push({ type: 'paragraph',
                  children: [{ type: 'text', text: parsed.rawHtml.substring(0, 2000) }] });
  }
  \<close>
\<close>

definition pushOptionalText :: "Block list \<Rightarrow> string option \<Rightarrow> Block list" where
  "pushOptionalText blocks field =
     (case field of
        Some t \<Rightarrow> if t \<noteq> [] then foldl pushParagraph blocks (splitOn CHR ''|'' t) else blocks
      | None \<Rightarrow> blocks)"

definition buildRichTextContent :: "ParsedArticle \<Rightarrow> Block list" where
  "buildRichTextContent parsed =
     (let blocks = [];
          blocks = pushOptionalText blocks (pa_introText parsed);
          blocks = (case pa_contentSections parsed of
                      Some secs \<Rightarrow> foldl pushSection blocks secs
                    | None \<Rightarrow> blocks);
          blocks = pushOptionalText blocks (pa_conclusion parsed);
          blocks = (if length blocks = 0 then
                      (case pa_rawHtml parsed of
                         Some raw \<Rightarrow>
                           if raw \<noteq> [] then blocks @ [Paragraph [plainRun (substring raw 0 2000)]]
                           else blocks
                       | None \<Rightarrow> blocks)
                    else blocks)
      in blocks)"

section \<open>The reading order of the specification\<close>

text \<open>
  Section 4.7 of the specification describes the blocks of an article as a sequence in
  reading order. The definitions below are written from its words, to be compared with
  \<open>buildRichTextContent\<close>: the Paragraphs of a text are one Paragraph for each segment
  between \<^verbatim>\<open>|\<close> that is not empty once trimmed; a list gives an optional Paragraph with
  its title in bold, immediately followed by its List block; a subsection gives a
  level-3 Heading when the subheading is not empty, the Paragraphs of its content, the
  blocks of its lists and the Paragraphs of its additional content; a section gives a
  level-2 Heading when the heading is not empty, the Paragraphs of its content, the
  blocks of its lists, the Paragraphs of its additional content and then its
  subsections, each one whole before the next; the article gives the Paragraphs of the
  intro text, the sections in order and the Paragraphs of the conclusion.
\<close>

definition spec_paragraphs :: "string \<Rightarrow> Block list" where
  "spec_paragraphs txt =
     map (\<lambda>seg. Paragraph (parseInlineHtml seg))
       (filter (\<lambda>seg. seg \<noteq> []) (map trim (splitOn CHR ''|'' txt)))"

definition spec_listBlocks :: "ContentList \<Rightarrow> Block list" where
  "spec_listBlocks l =
     (if list_title l \<noteq> [] then [Paragraph [boldRun (list_title l)]] else [])
     @ [ListBlock (list_ordered l)
          (map (\<lambda>item. parseInlineHtml (unescapeQuotes item)) (list_items l))]"

definition spec_subsectionBlocks :: "Subsection \<Rightarrow> Block list" where
  "spec_subsectionBlocks sub =
     (if sub_subheading sub \<noteq> [] then [Heading 3 [plainRun (sub_subheading sub)]] else [])
     @ spec_paragraphs (sub_content sub)
     @ concat (map spec_listBlocks (sub_lists sub))
     @ spec_paragraphs (sub_additionalContent sub)"

definition spec_sectionBlocks :: "Section \<Rightarrow> Block list" where
  "spec_sectionBlocks section =
     (if sec_heading section \<noteq> [] then [Heading 2 [plainRun (sec_heading section)]] else [])
     @ spec_paragraphs (sec_content section)
     @ concat (map spec_listBlocks (sec_lists section))
     @ spec_paragraphs (sec_additionalContent section)
     @ concat (map spec_subsectionBlocks (sec_subsections section))"

definition spec_readingOrder :: "ParsedArticle \<Rightarrow> Block list" where
  "spec_readingOrder parsed =
     spec_paragraphs (case pa_introText parsed of Some t \<Rightarrow> t | None \<Rightarrow> [])
     @ concat (map spec_sectionBlocks (case pa_contentSections parsed of Some secs \<Rightarrow> secs | None \<Rightarrow> []))
     @ spec_paragraphs (case pa_conclusion parsed of Some t \<Rightarrow> t | None \<Rightarrow> [])"

text \<open>The characters of a text outside its single-quoted regions, where a quote that no
  backslash immediately precedes opens or closes a region (section 4.1 of the
  specification); \<open>prev\<close> is the character before.\<close>

fun spec_outsideQuotes :: "bool \<Rightarrow> char option \<Rightarrow> string \<Rightarrow> string" where
  "spec_outsideQuotes inString prev [] = []"
| "spec_outsideQuotes inString prev (c # cs) =
     (if c = SQ \<and> prev \<noteq> Some BS then spec_outsideQuotes (\<not> inString) (Some c) cs
      else if inString then spec_outsideQuotes inString (Some c) cs
      else c # spec_outsideQuotes inString (Some c) cs)"


text \<open>The change of the nesting depth over a text: the occurrences of the opening
  character minus those of the closing one.\<close>

definition bal :: "char \<Rightarrow> char \<Rightarrow> string \<Rightarrow> int" where
  "bal opn cls xs = int (count_list xs opn) - int (count_list xs cls)"

text \<open>The block that the last step of \<open>buildRichTextContent\<close> pushes for an article
  with \<^verbatim>\<open>rawHtml\<close>, and nothing when \<^verbatim>\<open>rawHtml\<close> is absent or empty.\<close>

definition rawFallback :: "ParsedArticle \<Rightarrow> Block list" where
  "rawFallback parsed =
     (case pa_rawHtml parsed of
        Some raw \<Rightarrow> if raw \<noteq> [] then [Paragraph [plainRun (substring raw 0 2000)]] else []
      | None \<Rightarrow> [])"

text \<open>The source of the first end-to-end scenario of section 8 of the specification, in
  the form the parser reads (the keys quoted), with the two items of its list as
  parameters.\<close>

definition scenarioSource :: "string \<Rightarrow> string \<Rightarrow> string" where
  "scenarioSource item1 item2 =
     ''{% set article_data = { 'title': 'T', 'intro_text': 'A|B', 'content_sections': [ { 'heading': 'H', 'content': 'C', 'lists': [ { 'title': 'L', 'items': [''
     @ [SQ] @ item1 @ [SQ] @ '', '' @ [SQ] @ item2 @ [SQ] @
     ''], 'ordered': true } ] } ], 'conclusion': 'Z' } %}''"

text \<open>The value of \<^verbatim>\<open>result\<close> in \<open>parseTwigFile\<close> when it chooses a grammar: the empty
  object with the meta title and the meta description, where the source has them.\<close>

definition metaResult :: "string \<Rightarrow> ParsedArticle" where
  "metaResult content =
     (let result = emptyResult;
          result = (case firstMatch (blockAt ''title'') content of
                      Some t \<Rightarrow> result \<lparr> pa_metaTitle :=
                                  Some (trim (replaceAll ws1 '' '' (replaceAll printTagAt [] t))) \<rparr>
                    | None \<Rightarrow> result);
          result = (case firstMatch metaDescAt content of
                      Some d \<Rightarrow> result \<lparr> pa_metaDescription := Some (trim d) \<rparr>
                    | None \<Rightarrow> result)
      in result)"

text \<open>A source with a fallback region of \<open>n\<close> letters and neither marker.\<close>

definition longRegionSource :: "nat \<Rightarrow> string" where
  "longRegionSource n = ''{% block workarea_content %}'' @ replicate n CHR ''a'' @ ''{% endblock %}''"


text \<open>The invariant of claim C10 on a list: it has an item, and every item is longer than
  two characters. \<open>noBooleanItems\<close> says that no item is the string \<^verbatim>\<open>true\<close> or \<^verbatim>\<open>false\<close>.
  \<open>sectionListsOk\<close> is the invariant on the lists of a section and of its subsections.\<close>

definition listOk :: "ContentList \<Rightarrow> bool" where
  "listOk l = (list_items l \<noteq> [] \<and> list_all (\<lambda>item. length item > 2) (list_items l))"

definition noBooleanItems :: "ContentList \<Rightarrow> bool" where
  "noBooleanItems l = list_all (\<lambda>item. item \<noteq> ''true'' \<and> item \<noteq> ''false'') (list_items l)"

definition sectionListsOk :: "Section \<Rightarrow> bool" where
  "sectionListsOk sec =
     (list_all listOk (sec_lists sec)
      \<and> list_all (\<lambda>sub. list_all listOk (sub_lists sub)) (sec_subsections sec))"

text \<open>The section with every field empty, and what claim C6 asks of a section: a field
  that is not empty.\<close>

definition emptySection :: Section where
  "emptySection =
     \<lparr> sec_id = [], sec_heading = [], sec_content = [], sec_additionalContent = [],
       sec_lists = [], sec_imageSrc = None, sec_imageAlt = None, sec_subsections = [] \<rparr>"



text \<open>A list without title that is not ordered, and a subsection with lists only.\<close>

definition untitledList :: "string list \<Rightarrow> ContentList" where
  "untitledList items = \<lparr> list_title = [], list_ordered = False, list_items = items \<rparr>"

definition subsectionWith :: "ContentList list \<Rightarrow> Subsection" where
  "subsectionWith ls =
     \<lparr> sub_subheading = [], sub_content = [], sub_additionalContent = [],
       sub_imageSrc = None, sub_imageAlt = None, sub_lists = ls \<rparr>"

text \<open>The entry of the table of contents for a pair of captures in the order href,
  title, and for a pair in the order title, href.\<close>

definition hrefTitle :: "string \<times> string \<Rightarrow> TocItem" where
  "hrefTitle p = \<lparr> toc_href = fst p, toc_title = snd p \<rparr>"

definition titleHref :: "string \<times> string \<Rightarrow> TocItem" where
  "titleHref p = \<lparr> toc_href = snd p, toc_title = fst p \<rparr>"

section \<open>Descriptions of the fallback region, of the arguments and of links\<close>

text \<open>A print tag or a directive that opens and closes on one line, at the start of a
  text: the opening mark, a body without line terminator, and the closing mark, which
  is the first closing mark after the opening one. \<open>r\<close> is the text after the closing
  mark.\<close>

definition spec_tagAt :: "string \<Rightarrow> string \<Rightarrow> string \<Rightarrow> string \<Rightarrow> bool" where
  "spec_tagAt opn cls s r =
     (\<exists>body. s = opn @ body @ cls @ r
        \<and> list_all (\<lambda>c. \<not> is_line_term c) body
        \<and> (\<forall>k<length body. \<not> prefix cls (drop k (body @ cls @ r))))"

text \<open>The start of an \<^verbatim>\<open>endblock\<close> directive: \<^verbatim>\<open>{%\<close>, white space, \<^verbatim>\<open>endblock\<close>.\<close>

definition spec_endblockTag :: "string \<Rightarrow> bool" where
  "spec_endblockTag s = (\<exists>w r. s = ''{%'' @ w @ ''endblock'' @ r \<and> list_all is_space w)"

text \<open>The fallback region that starts at index \<open>n\<close> of the source: the opening tag of
  the block \<^verbatim>\<open>workarea_content\<close> (white space is free around the words, and there is
  some between them), the body, and the start of an \<^verbatim>\<open>endblock\<close> directive, the first
  one after the opening tag.\<close>

definition spec_regionAt :: "string \<Rightarrow> nat \<Rightarrow> string \<Rightarrow> bool" where
  "spec_regionAt content n body =
     (n \<le> length content \<and>
      (\<exists>w1 w2 w3 rest.
         drop n content = ''{%'' @ w1 @ ''block'' @ w2 @ ''workarea_content'' @ w3 @ ''%}'' @ body @ rest
         \<and> list_all is_space w1 \<and> list_all is_space w2 \<and> w2 \<noteq> [] \<and> list_all is_space w3
         \<and> spec_endblockTag rest
         \<and> (\<forall>k<length body. \<not> spec_endblockTag (drop k (body @ rest)))))"

text \<open>A text that has as many closing characters as opening ones and no prefix with
  more closing characters than opening ones, whatever the quotes around them.\<close>

definition rawBalanced :: "char \<Rightarrow> char \<Rightarrow> string \<Rightarrow> bool" where
  "rawBalanced opn cls xs =
     (bal opn cls xs = 0 \<and> list_all (\<lambda>n. 0 \<le> bal opn cls (take n xs)) [0..<length xs])"


section \<open>Properties of the string functions and of the scans\<close>

lemma substring_same [simp]: "substring s i i = []"
  by (simp add: substring_def)

lemma substring_slice:
  assumes "0 \<le> i" "i \<le> j" "j \<le> int (length s)"
  shows "substring s i j = take (nat j - nat i) (drop (nat i) s)"
proof -
  have c1: "clampIdx s i = nat i" using assms by (simp add: clampIdx_def)
  have c2: "clampIdx s j = nat j" using assms by (simp add: clampIdx_def)
  have le: "nat i \<le> nat j" using assms by simp
  show ?thesis using le
    by (simp add: substring_def c1 c2 Let_def min_def max_def)
qed

lemma substring_step:
  assumes "0 \<le> i" "i < j" "j \<le> int (length s)"
  shows "substring s i j = s ! nat i # substring s (i + 1) j"
proof -
  have lt: "nat i < nat j" using assms by simp
  have len: "nat i < length s" using assms by simp
  have n1: "nat (i + 1) = Suc (nat i)" using assms by (simp add: nat_add_distrib)
  have "take (nat j - nat i) (drop (nat i) s) = s ! nat i # take (nat j - Suc (nat i)) (drop (Suc (nat i)) s)"
    using lt len
    by (metis Cons_nth_drop_Suc Suc_diff_Suc take_Suc_Cons)
  then show ?thesis using assms
    by (simp add: substring_slice n1)
qed


lemma scanLoop_steps: "fst (scanLoop opn cls s pos d) = (if pos < int (length s) \<and> d > 0 then pos + int (scanSteps opn cls s pos d) else pos)"
proof (induction opn cls s pos d rule: scanLoop.induct)
  case (1 opn cls s pos depth)
  show ?case
    using 1 by (subst scanLoop.simps, subst scanSteps.simps) (auto simp: scanSteps.simps[of _ _ _ "pos + 1"])
qed

lemma scanSteps_bound: "scanSteps opn cls s pos d \<le> nat (int (length s) - pos)"
proof (induction opn cls s pos d rule: scanSteps.induct)
  case (1 opn cls s pos depth)
  show ?case
    using 1 by (subst scanSteps.simps) (auto simp: nat_le_iff)
qed

lemma bal_Nil [simp]: "bal opn cls [] = 0" by (simp add: bal_def)
lemma bal_Cons: "bal opn cls (x # xs) = (if x = opn then 1 else 0) - (if x = cls then 1 else 0) + bal opn cls xs"
  by (simp add: bal_def)

lemma scanLoop_inv:
  "scanLoop opn cls s pos d = (p, d') \<Longrightarrow> 0 \<le> pos \<Longrightarrow> pos \<le> int (length s) \<Longrightarrow> opn \<noteq> cls \<Longrightarrow> 0 \<le> d \<Longrightarrow>
     pos \<le> p \<and> p \<le> int (length s) \<and> 0 \<le> d'
     \<and> d' = d + bal opn cls (substring s pos p)
     \<and> (d' = 0 \<or> p = int (length s))
     \<and> (\<forall>q. pos \<le> q \<and> q < p \<longrightarrow> 0 < d + bal opn cls (substring s pos q))
     \<and> (d' = 0 \<and> 0 < d \<longrightarrow> pos < p \<and> charAt s (p - 1) = Some cls)"
proof (induction opn cls s pos d arbitrary: p d' rule: scanLoop.induct)
  case (1 opn cls s pos depth)
  show ?case
  proof (cases "pos < int (length s) \<and> depth > 0")
    case False
    with "1.prems" have "p = pos" "d' = depth"
      by (simp_all add: scanLoop.simps[of opn cls s pos depth])
    with False "1.prems" show ?thesis by auto
  next
    case True
    define c where "c = s ! nat pos"
    have ch: "charAt s pos = Some c" using True "1.prems" by (simp add: charAt_def c_def)
    define dn where "dn = depth + (if c = opn then 1 else 0) - (if c = cls then 1 else 0)"
    have rec: "scanLoop opn cls s (pos + 1) dn = (p, d')"
      using "1.prems"(1) True ch "1.prems"(4)
      by (subst (asm) scanLoop.simps) (auto simp: dn_def split: if_splits)
    have dn0: "0 \<le> dn" using True "1.prems"(4) by (auto simp: dn_def)
    have pre: "0 \<le> pos + 1" "pos + 1 \<le> int (length s)" using True "1.prems" by auto
    have IH: "pos + 1 \<le> p \<and> p \<le> int (length s) \<and> 0 \<le> d'
     \<and> d' = dn + bal opn cls (substring s (pos + 1) p)
     \<and> (d' = 0 \<or> p = int (length s))
     \<and> (\<forall>q. pos + 1 \<le> q \<and> q < p \<longrightarrow> 0 < dn + bal opn cls (substring s (pos + 1) q))
     \<and> (d' = 0 \<and> 0 < dn \<longrightarrow> pos + 1 < p \<and> charAt s (p - 1) = Some cls)"
    proof (cases "c = opn")
      case True
      with ch rec pre dn0 "1.prems"(4) \<open>pos < int (length s) \<and> depth > 0\<close> show ?thesis
        using "1.IH"(1)[of p d'] by (auto simp: dn_def)
    next
      case False
      show ?thesis
      proof (cases "c = cls")
        case True
        with False ch rec pre dn0 "1.prems"(4) \<open>pos < int (length s) \<and> depth > 0\<close> show ?thesis
          using "1.IH"(2)[of p d'] by (auto simp: dn_def)
      next
        case nc: False
        with False ch rec pre dn0 "1.prems"(4) \<open>pos < int (length s) \<and> depth > 0\<close> show ?thesis
          using "1.IH"(3)[of p d'] by (auto simp: dn_def)
      qed
    qed
    have step: "\<And>q. pos < q \<Longrightarrow> q \<le> int (length s) \<Longrightarrow>
        depth + bal opn cls (substring s pos q) = dn + bal opn cls (substring s (pos + 1) q)"
      using "1.prems"(2) by (simp add: substring_step bal_Cons dn_def c_def)
    have a: "pos \<le> p \<and> p \<le> int (length s) \<and> 0 \<le> d'" using IH by auto
    have b: "d' = depth + bal opn cls (substring s pos p)" using IH step[of p] by auto
    have c: "d' = 0 \<or> p = int (length s)" using IH by auto
    have d: "\<forall>q. pos \<le> q \<and> q < p \<longrightarrow> 0 < depth + bal opn cls (substring s pos q)"
    proof (intro allI impI)
      fix q assume q: "pos \<le> q \<and> q < p"
      show "0 < depth + bal opn cls (substring s pos q)"
      proof (cases "q = pos")
        case True then show ?thesis using \<open>pos < int (length s) \<and> depth > 0\<close> by simp
      next
        case False
        then have "pos + 1 \<le> q \<and> q < p" using q by auto
        moreover have "q \<le> int (length s)" using q IH by auto
        ultimately show ?thesis using IH step[of q] by auto
      qed
    qed
    have e: "d' = 0 \<and> 0 < depth \<longrightarrow> pos < p \<and> charAt s (p - 1) = Some cls"
    proof (intro impI)
      assume h: "d' = 0 \<and> 0 < depth"
      show "pos < p \<and> charAt s (p - 1) = Some cls"
      proof (cases "0 < dn")
        case True then show ?thesis using IH h by auto
      next
        case False
        then have "dn = 0" using dn0 by simp
        then have "p = pos + 1" using rec by (simp add: scanLoop.simps[of opn cls s "pos + 1" 0])
        moreover have "c = cls" using \<open>dn = 0\<close> h by (auto simp: dn_def split: if_splits)
        ultimately show ?thesis using ch by simp
      qed
    qed
    from a b c d e show ?thesis by blast
  qed
qed

lemma spec_scan_no_quotes:
  "SQ \<notin> set s \<Longrightarrow> spec_quoteAwareScan opn cls s pos d False = scanLoop opn cls s pos d"
proof (induction opn cls s pos d rule: scanLoop.induct)
  case (1 opn cls s pos depth)
  have nq: "charAt s pos \<noteq> Some SQ"
  proof
    assume a: "charAt s pos = Some SQ"
    then have "0 \<le> pos \<and> pos < int (length s) \<and> s ! nat pos = SQ"
      by (auto simp: charAt_def split: if_splits)
    then have "nat pos < length s" "s ! nat pos = SQ" by auto
    then have "SQ \<in> set s" using nth_mem by metis
    with "1.prems" show False by simp
  qed
  show ?case
    using 1 nq
    by (subst spec_quoteAwareScan.simps, subst scanLoop.simps) auto
qed

lemma indexOfFrom_ge: "- 1 \<le> indexOfFrom s p from"
  by (simp add: indexOfFrom_def split: option.splits)

lemma findFrom_lt: "findFrom p s = Some j \<Longrightarrow> p \<noteq> [] \<Longrightarrow> j < length s"
  by (induction s arbitrary: j) (auto split: if_splits)

lemma findFrom_le: "findFrom p s = Some j \<Longrightarrow> j \<le> length s"
  by (induction s arbitrary: j) (auto split: if_splits)

lemma clampIdx_le: "clampIdx s i \<le> length s"
  by (simp add: clampIdx_def)

lemma indexOfFrom_le: "indexOfFrom s p from \<le> int (length s)"
proof (cases "findFrom p (drop (clampIdx s from) s)")
  case None
  then show ?thesis by (simp add: indexOfFrom_def)
next
  case (Some j)
  from findFrom_le[OF Some] have "j \<le> length s - clampIdx s from" by simp
  with clampIdx_le[of s "from"] have "clampIdx s from + j \<le> length s" by simp
  then show ?thesis using Some by (simp add: indexOfFrom_def)
qed

lemma skipStrings_ge: "i \<le> skipStrings t i n b"
proof (induction t i n b rule: skipStrings.induct)
  case (1 t i stringCount inString)
  show ?case using 1 by (subst skipStrings.simps) (auto split: if_splits)
qed

lemma skipToBracket_ge: "i \<le> skipToBracket t i"
proof (induction t i rule: skipToBracket.induct)
  case (1 t i)
  show ?case using 1 by (subst skipToBracket.simps) (auto split: if_splits)
qed

lemma sectionsArrStart_ge: "- 1 \<le> sectionsArrStart h"
proof -
  have "0 \<le> skipToBracket h (skipStrings h 0 0 False)"
    using skipToBracket_ge[of "skipStrings h 0 0 False" h] skipStrings_ge[of 0 h 0 False] by linarith
  then show ?thesis
    by (auto simp: sectionsArrStart_def Let_def indexOfFrom_ge)
qed

lemma scanSteps_le_length: "- 1 \<le> i \<Longrightarrow> scanSteps opn cls s (i + 1) d \<le> length s"
  using scanSteps_bound[of opn cls s "i + 1" d] by linarith

lemma scanLoop_pos: "fst (scanLoop opn cls s pos d) = pos + int (scanSteps opn cls s pos d)"
  by (simp add: scanLoop_steps scanSteps.simps[of opn cls s pos d])

section \<open>Claims about the delimiter scans\<close>

text \<open>
  Claim C2, as amended. A scan started after an opening delimiter at \<open>start\<close> stops one
  past the first closing delimiter at which the raw nesting depth returns to zero, or at
  the end of the text when it never does. The depth counts every occurrence of the two
  delimiter characters, inside a quoted string or not: before the stop, the text from
  \<open>start\<close> has more opening than closing characters, and when the depth is back to zero
  the character before the stop is the closing one and the text from \<open>start\<close> to the
  stop has as many opening as closing characters. On a text without a quote the scan is
  the quote-aware scan of the specification.
\<close>

theorem scan_stops_at_first_raw_balance:
  assumes "charAt s start = Some opn" and "opn \<noteq> cls"
    and "scanLoop opn cls s (start + 1) 1 = (p, d)"
  shows "start < p \<and> p \<le> int (length s) \<and> (d = 0 \<or> p = int (length s))
     \<and> (\<forall>q. start < q \<and> q < p \<longrightarrow>
            count_list (substring s start q) cls < count_list (substring s start q) opn)
     \<and> (d = 0 \<longrightarrow> charAt s (p - 1) = Some cls
            \<and> count_list (substring s start p) opn = count_list (substring s start p) cls)
     \<and> (SQ \<notin> set s \<longrightarrow> spec_quoteAwareScan opn cls s (start + 1) 1 False = (p, d))"
proof -
  from assms(1) have st: "0 \<le> start" "start < int (length s)" "s ! nat start = opn"
    by (auto simp: charAt_def split: if_splits)
  have h0: "0 \<le> start + 1" and h1: "start + 1 \<le> int (length s)" and h2: "0 \<le> (1::int)"
    using st by auto
  note inv = scanLoop_inv[OF assms(3) h0 h1 assms(2) h2]
  have open_first: "\<And>q. start < q \<Longrightarrow> q \<le> int (length s) \<Longrightarrow>
      bal opn cls (substring s start q) = 1 + bal opn cls (substring s (start + 1) q)"
    using st assms(2) by (simp add: substring_step bal_Cons)
  have a: "start < p \<and> p \<le> int (length s) \<and> (d = 0 \<or> p = int (length s))"
    using inv by auto
  have b: "\<forall>q. start < q \<and> q < p \<longrightarrow>
            count_list (substring s start q) cls < count_list (substring s start q) opn"
  proof (intro allI impI)
    fix q assume q: "start < q \<and> q < p"
    then have "0 < 1 + bal opn cls (substring s (start + 1) q)" using inv by auto
    moreover have "q \<le> int (length s)" using q inv by auto
    ultimately have "0 < bal opn cls (substring s start q)" using open_first[of q] q by simp
    then show "count_list (substring s start q) cls < count_list (substring s start q) opn"
      by (simp add: bal_def)
  qed
  have c: "d = 0 \<longrightarrow> charAt s (p - 1) = Some cls
            \<and> count_list (substring s start p) opn = count_list (substring s start p) cls"
  proof
    assume d0: "d = 0"
    have "bal opn cls (substring s start p) = 0" using inv d0 open_first[of p] by auto
    then show "charAt s (p - 1) = Some cls
            \<and> count_list (substring s start p) opn = count_list (substring s start p) cls"
      using inv d0 by (simp add: bal_def)
  qed
  have e: "SQ \<notin> set s \<longrightarrow> spec_quoteAwareScan opn cls s (start + 1) 1 False = (p, d)"
    using spec_scan_no_quotes[of s opn cls "start + 1" 1] assms(3) by simp
  from a b c e show ?thesis by blast
qed

text \<open>The theorem at the text \<^verbatim>\<open>{'a': '}'}\<close>, scanned from its first brace.\<close>

theorem scan_stops_at_first_raw_balance_witness:
  "charAt ''{'a': '}'}'' 0 = Some CHR ''{'' \<and> CHR ''{'' \<noteq> CHR ''}''
   \<and> scanLoop CHR ''{'' CHR ''}'' ''{'a': '}'}'' (0 + 1) 1 = (8, 0)
   \<and> charAt ''{'a': '}'}'' (8 - 1) = Some CHR ''}''
   \<and> count_list (substring ''{'a': '}'}'' 0 8) CHR ''{'' = count_list (substring ''{'a': '}'}'' 0 8) CHR ''}''"
proof -
  have h1: "charAt ''{'a': '}'}'' 0 = Some CHR ''{''" by code_simp
  have h2: "CHR ''{'' \<noteq> CHR ''}''" by simp
  have h3: "scanLoop CHR ''{'' CHR ''}'' ''{'a': '}'}'' (0 + 1) 1 = (8, 0)" by code_simp
  from scan_stops_at_first_raw_balance[OF h1 h2 h3] h1 h2 h3 show ?thesis by simp
qed

text \<open>
  Claim C2 as stated fails: no scan of the program skips quoted regions. In
  \<^verbatim>\<open>{'a': '}'}\<close> the brace at index 7 is inside a quoted string; the scan of the program
  stops after it, at 8, where the quote-aware scan stops at 10, and outside the quoted
  regions the text up to 8 has one opening brace and no closing one. So the object
  literal that \<^verbatim>\<open>parseArticleDataPattern\<close> cuts out of the last source ends inside the
  string.
\<close>

theorem scan_counts_quoted_brace_counterexample:
  "scanLoop CHR ''{'' CHR ''}'' ''{'a': '}'}'' 1 1 = (8, 0)
   \<and> spec_quoteAwareScan CHR ''{'' CHR ''}'' ''{'a': '}'}'' 1 1 False = (10, 0)
   \<and> spec_outsideQuotes False None (substring ''{'a': '}'}'' 0 8) = ''{: ''
   \<and> articleHash ''{% set article_data = {'a': '}', 'title': 'T'} %}'' 0 = ''{'a': '}''"
  by code_simp

text \<open>
  Claim C7. Every delimiter scan makes at most as many steps as there are characters
  from its start to the end of the text, and stops at its start plus the number of
  steps; a scan that starts after an index in the text (or after the \<open>-1\<close> of a search
  that found nothing), as every scan of the program does, makes at most as many steps as
  the text is long, and so do the brace scan of \<^verbatim>\<open>parseArticleDataPattern\<close> and the
  bracket scan of \<^verbatim>\<open>parseContentSections\<close>. A scan that never comes back to depth zero
  stops at the end of the text. All functions of the model are total: the extraction
  returns for every text, and for a source whose object literal and section are never
  closed it returns the title with an empty list of sections.
\<close>

theorem scans_terminate_within_input:
  "scanSteps opn cls s pos d \<le> nat (int (length s) - pos)
   \<and> fst (scanLoop opn cls s pos d) = pos + int (scanSteps opn cls s pos d)
   \<and> (- 1 \<le> i \<longrightarrow> scanSteps opn cls s (i + 1) d \<le> length s)
   \<and> (0 \<le> pos \<and> pos \<le> int (length s) \<and> 0 < d \<and> opn \<noteq> cls \<and> 0 < snd (scanLoop opn cls s pos d)
        \<longrightarrow> fst (scanLoop opn cls s pos d) = int (length s))
   \<and> scanSteps CHR ''{'' CHR ''}'' content (indexOfFrom content ''{'' k + 1) 1 \<le> length content
   \<and> scanSteps CHR ''['' CHR '']'' h (sectionsArrStart h + 1) 1 \<le> length h
   \<and> parseTwigFile ''{% set article_data = { 'title': 'T', 'content_sections': [ { 'heading': 'H' ''
       = emptyResult \<lparr> pa_title := Some ''T'', pa_imageAlt := Some [], pa_introText := Some [],
            pa_tocItems := Some [], pa_contentSections := Some [], pa_conclusion := Some [] \<rparr>"
proof -
  have e: "parseTwigFile ''{% set article_data = { 'title': 'T', 'content_sections': [ { 'heading': 'H' ''
       = emptyResult \<lparr> pa_title := Some ''T'', pa_imageAlt := Some [], pa_introText := Some [],
            pa_tocItems := Some [], pa_contentSections := Some [], pa_conclusion := Some [] \<rparr>"
    by code_simp
  have b1: "scanSteps CHR ''{'' CHR ''}'' content (indexOfFrom content ''{'' k + 1) 1 \<le> length content"
    by (rule scanSteps_le_length) (rule indexOfFrom_ge)
  have b2: "scanSteps CHR ''['' CHR '']'' h (sectionsArrStart h + 1) 1 \<le> length h"
    by (rule scanSteps_le_length) (rule sectionsArrStart_ge)
  have b3: "- 1 \<le> i \<longrightarrow> scanSteps opn cls s (i + 1) d \<le> length s"
    using scanSteps_le_length[of i opn cls s d] by blast
  have b4: "0 \<le> pos \<and> pos \<le> int (length s) \<and> 0 < d \<and> opn \<noteq> cls \<and> 0 < snd (scanLoop opn cls s pos d)
        \<longrightarrow> fst (scanLoop opn cls s pos d) = int (length s)"
  proof
    assume a: "0 \<le> pos \<and> pos \<le> int (length s) \<and> 0 < d \<and> opn \<noteq> cls \<and> 0 < snd (scanLoop opn cls s pos d)"
    obtain p d' where r: "scanLoop opn cls s pos d = (p, d')" by (cases "scanLoop opn cls s pos d")
    from a have d0: "0 \<le> d" by simp
    from scanLoop_inv[OF r _ _ _ d0] a have "d' = 0 \<or> p = int (length s)" by blast
    with a r show "fst (scanLoop opn cls s pos d) = int (length s)" by simp
  qed
  show ?thesis
    using scanSteps_bound[of opn cls s pos d] scanLoop_pos[of opn cls s pos d] b1 b2 b3 b4 e
    by blast
qed

text \<open>The theorem at an object literal that is never closed: the scan makes ten steps
  and stops at the end of the text.\<close>

theorem scans_terminate_within_input_witness:
  "scanSteps CHR ''{'' CHR ''}'' ''{ 'a': 'b' '' 1 1 = 10
   \<and> fst (scanLoop CHR ''{'' CHR ''}'' ''{ 'a': 'b' '' 1 1) = 11
   \<and> length ''{ 'a': 'b' '' = 11"
proof -
  have "scanSteps CHR ''{'' CHR ''}'' ''{ 'a': 'b' '' 1 1 = 10" by code_simp
  moreover have "fst (scanLoop CHR ''{'' CHR ''}'' ''{ 'a': 'b' '' 1 1)
      = 1 + int (scanSteps CHR ''{'' CHR ''}'' ''{ 'a': 'b' '' 1 1)"
    using scans_terminate_within_input[of "CHR ''{''" "CHR ''}''" "''{ 'a': 'b' ''" 1 1]
    by blast
  ultimately show ?thesis by simp
qed

section \<open>Block assembly and the reading order\<close>

lemma foldl_pushParagraph:
  "foldl pushParagraph bs segs =
     bs @ map (\<lambda>seg. Paragraph (parseInlineHtml seg)) (filter (\<lambda>seg. seg \<noteq> []) (map trim segs))"
  by (induction segs arbitrary: bs) (simp_all add: pushParagraph_def Let_def)

lemma addParagraphs_eq: "addParagraphs bs t = bs @ spec_paragraphs t"
  by (simp add: addParagraphs_def spec_paragraphs_def foldl_pushParagraph)

lemma trim_Nil [simp]: "trim [] = []"
  by (simp add: trim_def)

lemma spec_paragraphs_Nil [simp]: "spec_paragraphs [] = []"
  by (simp add: spec_paragraphs_def)

lemma guarded_addParagraphs:
  "(if t \<noteq> [] then addParagraphs bs t else bs) = bs @ spec_paragraphs t"
  by (simp add: addParagraphs_eq)

lemma pushOptionalText_eq:
  "pushOptionalText bs field = bs @ spec_paragraphs (case field of Some t \<Rightarrow> t | None \<Rightarrow> [])"
  by (cases field) (simp_all add: pushOptionalText_def foldl_pushParagraph spec_paragraphs_def)

lemma pushList_eq: "pushList bs l = bs @ spec_listBlocks l"
  by (simp add: pushList_def spec_listBlocks_def Let_def)

lemma foldl_pushList: "foldl pushList bs ls = bs @ concat (map spec_listBlocks ls)"
  by (induction ls arbitrary: bs) (simp_all add: pushList_eq)

lemma guarded_pushLists:
  "(if length ls > 0 then foldl pushList bs ls else bs) = bs @ concat (map spec_listBlocks ls)"
  by (cases ls) (simp_all add: foldl_pushList pushList_eq)

lemma pushSubsection_eq: "pushSubsection bs sub = bs @ spec_subsectionBlocks sub"
  unfolding pushSubsection_def Let_def guarded_addParagraphs guarded_pushLists spec_subsectionBlocks_def
  by simp

lemma foldl_pushSubsection:
  "foldl pushSubsection bs subs = bs @ concat (map spec_subsectionBlocks subs)"
  by (induction subs arbitrary: bs) (simp_all add: pushSubsection_eq)

lemma pushSection_eq: "pushSection bs sec = bs @ spec_sectionBlocks sec"
  unfolding pushSection_def Let_def guarded_addParagraphs guarded_pushLists spec_sectionBlocks_def
    foldl_pushSubsection
  by simp

lemma foldl_pushSection:
  "foldl pushSection bs secs = bs @ concat (map spec_sectionBlocks secs)"
  by (induction secs arbitrary: bs) (simp_all add: pushSection_eq)

lemma structured_eq:
  "(let blocks = [];
        blocks = pushOptionalText blocks (pa_introText parsed);
        blocks = (case pa_contentSections parsed of
                      Some secs \<Rightarrow> foldl pushSection blocks secs
                    | None \<Rightarrow> blocks)
    in pushOptionalText blocks (pa_conclusion parsed)) = spec_readingOrder parsed"
  by (cases "pa_contentSections parsed")
     (simp_all add: Let_def pushOptionalText_eq foldl_pushSection spec_readingOrder_def)

lemma buildRichTextContent_eq:
  "buildRichTextContent parsed =
     (if spec_readingOrder parsed = [] then rawFallback parsed else spec_readingOrder parsed)"
proof -
  have "buildRichTextContent parsed =
      (let blocks = spec_readingOrder parsed
       in if length blocks = 0 then
            (case pa_rawHtml parsed of
               Some raw \<Rightarrow>
                 if raw \<noteq> [] then blocks @ [Paragraph [plainRun (substring raw 0 2000)]] else blocks
             | None \<Rightarrow> blocks)
          else blocks)"
    unfolding buildRichTextContent_def structured_eq[symmetric] Let_def ..
  then show ?thesis
    by (auto simp: Let_def rawFallback_def split: option.splits)
qed

lemma parseInlineHtml_nonempty: "parseInlineHtml t \<noteq> []"
  by (simp add: parseInlineHtml_def Let_def)

lemma no_empty_paragraph_spec_paragraphs: "Paragraph [] \<notin> set (spec_paragraphs t)"
  using parseInlineHtml_nonempty by (auto simp: spec_paragraphs_def) metis

lemma no_empty_paragraph_listBlocks: "Paragraph [] \<notin> set (spec_listBlocks l)"
  by (auto simp: spec_listBlocks_def)

lemma no_empty_paragraph_subsection: "Paragraph [] \<notin> set (spec_subsectionBlocks sub)"
  by (auto simp: spec_subsectionBlocks_def no_empty_paragraph_spec_paragraphs no_empty_paragraph_listBlocks)

lemma no_empty_paragraph_section: "Paragraph [] \<notin> set (spec_sectionBlocks sec)"
  by (auto simp: spec_sectionBlocks_def no_empty_paragraph_spec_paragraphs
      no_empty_paragraph_listBlocks no_empty_paragraph_subsection)

lemma no_empty_paragraph_readingOrder: "Paragraph [] \<notin> set (spec_readingOrder parsed)"
  by (auto simp: spec_readingOrder_def no_empty_paragraph_spec_paragraphs no_empty_paragraph_section)

lemma no_empty_paragraph_build: "Paragraph [] \<notin> set (buildRichTextContent parsed)"
  by (auto simp: buildRichTextContent_eq no_empty_paragraph_readingOrder rawFallback_def
      split: option.splits)

lemma length_spec_paragraphs:
  "length (spec_paragraphs t) = length (filter (\<lambda>seg. trim seg \<noteq> []) (splitOn CHR ''|'' t))"
  by (simp add: spec_paragraphs_def filter_map comp_def)

text \<open>
  Claim C1, as amended. For every parsed article the blocks are those of the reading
  order of the specification (intro Paragraphs; for each section the level-2 Heading,
  the content Paragraphs, for each list the optional bold title Paragraph and then the
  List block, the Paragraphs of the additional content, then each subsection in order;
  the Paragraphs of the conclusion), or the fallback block when that sequence is empty.
  A text gives one Paragraph for each segment that is not blank, so \<^verbatim>\<open>A|B|\<close> gives two,
  and no Paragraph is without a run. The named-object source of the scenario with the
  items \<^verbatim>\<open>xxx\<close> and \<^verbatim>\<open>yyy\<close> yields the seven blocks of the scenario.
\<close>

theorem blocks_in_reading_order:
  "buildRichTextContent parsed =
     (if spec_readingOrder parsed = [] then rawFallback parsed else spec_readingOrder parsed)
   \<and> length (spec_paragraphs t) = length (filter (\<lambda>seg. trim seg \<noteq> []) (splitOn CHR ''|'' t))
   \<and> Paragraph [] \<notin> set (buildRichTextContent parsed)
   \<and> spec_paragraphs ''A|B|'' = [Paragraph [plainRun ''A''], Paragraph [plainRun ''B'']]
   \<and> buildRichTextContent (parseTwigFile (scenarioSource ''xxx'' ''yyy'')) =
       [Paragraph [plainRun ''A''], Paragraph [plainRun ''B''], Heading 2 [plainRun ''H''],
        Paragraph [plainRun ''C''], Paragraph [boldRun ''L''],
        ListBlock True [[plainRun ''xxx''], [plainRun ''yyy'']], Paragraph [plainRun ''Z'']]"
proof -
  have seg: "spec_paragraphs ''A|B|'' = [Paragraph [plainRun ''A''], Paragraph [plainRun ''B'']]"
    by code_simp
  have ex: "buildRichTextContent (parseTwigFile (scenarioSource ''xxx'' ''yyy'')) =
       [Paragraph [plainRun ''A''], Paragraph [plainRun ''B''], Heading 2 [plainRun ''H''],
        Paragraph [plainRun ''C''], Paragraph [boldRun ''L''],
        ListBlock True [[plainRun ''xxx''], [plainRun ''yyy'']], Paragraph [plainRun ''Z'']]"
    by code_simp
  show ?thesis
    using buildRichTextContent_eq[of parsed] length_spec_paragraphs[of t]
      no_empty_paragraph_build[of parsed] seg ex
    by blast
qed

text \<open>The theorem at an article with an intro text and a conclusion only.\<close>

theorem blocks_in_reading_order_witness:
  "buildRichTextContent (emptyResult \<lparr> pa_introText := Some ''A|B'', pa_conclusion := Some ''Z'' \<rparr>) =
     [Paragraph [plainRun ''A''], Paragraph [plainRun ''B''], Paragraph [plainRun ''Z'']]"
proof -
  have "spec_readingOrder (emptyResult \<lparr> pa_introText := Some ''A|B'', pa_conclusion := Some ''Z'' \<rparr>) =
     [Paragraph [plainRun ''A''], Paragraph [plainRun ''B''], Paragraph [plainRun ''Z'']]"
    by code_simp
  then show ?thesis
    using blocks_in_reading_order[of "emptyResult \<lparr> pa_introText := Some ''A|B'', pa_conclusion := Some ''Z'' \<rparr>"]
    by simp
qed

text \<open>
  Claim C1 as stated fails on its own scenario: the extraction keeps an item only when it
  is longer than two characters and omits a list left without items, so the source with
  the items \<^verbatim>\<open>x\<close> and \<^verbatim>\<open>y\<close> yields neither the title Paragraph nor the List block. Also, a
  segment that is markup around no text, \<^verbatim>\<open><b></b>\<close>, gives a Paragraph whose only run has
  the empty string as its text.
\<close>

theorem scenario_short_items_counterexample:
  "buildRichTextContent (parseTwigFile (scenarioSource ''x'' ''y'')) =
       [Paragraph [plainRun ''A''], Paragraph [plainRun ''B''], Heading 2 [plainRun ''H''],
        Paragraph [plainRun ''C''], Paragraph [plainRun ''Z'']]
   \<and> buildRichTextContent (parseTwigFile (scenarioSource ''x'' ''y'')) \<noteq>
       [Paragraph [plainRun ''A''], Paragraph [plainRun ''B''], Heading 2 [plainRun ''H''],
        Paragraph [plainRun ''C''], Paragraph [boldRun ''L''],
        ListBlock True [[plainRun ''x''], [plainRun ''y'']], Paragraph [plainRun ''Z'']]
   \<and> buildRichTextContent (emptyResult \<lparr> pa_introText := Some ''<b></b>'' \<rparr>) = [Paragraph [boldRun '''']]"
proof -
  have ev: "buildRichTextContent (parseTwigFile (scenarioSource ''x'' ''y'')) =
       [Paragraph [plainRun ''A''], Paragraph [plainRun ''B''], Heading 2 [plainRun ''H''],
        Paragraph [plainRun ''C''], Paragraph [plainRun ''Z'']]"
    by code_simp
  have em: "buildRichTextContent (emptyResult \<lparr> pa_introText := Some ''<b></b>'' \<rparr>) = [Paragraph [boldRun '''']]"
    by code_simp
  show ?thesis unfolding ev using em by simp
qed

section \<open>The dispatcher and the raw fallback\<close>

lemma findFrom_None_iff: "findFrom p s = None \<longleftrightarrow> \<not> sublist p s"
proof (induction s)
  case Nil
  show ?case by simp
next
  case (Cons c cs)
  show ?case
  proof (cases "prefix p (c # cs)")
    case True
    then show ?thesis by simp
  next
    case False
    then show ?thesis using Cons by (simp add: sublist_Cons_right)
  qed
qed

lemma clampIdx_0 [simp]: "clampIdx s 0 = 0"
  by (simp add: clampIdx_def)

lemma indexOf_absent: "indexOf s p = - 1 \<longleftrightarrow> \<not> sublist p s"
  by (simp add: indexOf_def indexOfFrom_def findFrom_None_iff[symmetric] split: option.splits)

lemma substring_take: "0 \<le> n \<Longrightarrow> substring s 0 n = take (nat n) s"
  by (simp add: substring_def clampIdx_def Let_def min_def max_def)

lemma metaResult_fields:
  "pa_title (metaResult c) = None \<and> pa_imagePath (metaResult c) = None
   \<and> pa_imageAlt (metaResult c) = None \<and> pa_introText (metaResult c) = None
   \<and> pa_tocItems (metaResult c) = None \<and> pa_contentSections (metaResult c) = None
   \<and> pa_conclusion (metaResult c) = None \<and> pa_rawHtml (metaResult c) = None"
  by (simp add: metaResult_def emptyResult_def Let_def split: option.splits)

lemma parseTwigFile_fallback:
  assumes "\<not> sublist ''{% set article_data'' content"
    and "\<not> sublist ''blog_macros.blog_content('' content"
  shows "parseTwigFile content = extractFallbackContent content (metaResult content)"
proof -
  have a: "indexOf content ''{% set article_data'' = - 1" using assms(1) indexOf_absent by blast
  have b: "indexOf content ''blog_macros.blog_content('' = - 1" using assms(2) indexOf_absent by blast
  show ?thesis
    unfolding parseTwigFile_def metaResult_def Let_def a b by simp
qed

lemma fallback_readingOrder:
  "pa_introText r = None \<Longrightarrow> pa_contentSections r = None \<Longrightarrow> pa_conclusion r = None \<Longrightarrow>
   buildRichTextContent r = rawFallback r"
  by (simp add: buildRichTextContent_def pushOptionalText_def rawFallback_def Let_def split: option.splits)

lemma extractFallbackContent_fields:
  "pa_introText (extractFallbackContent c r) = pa_introText r
   \<and> pa_contentSections (extractFallbackContent c r) = pa_contentSections r
   \<and> pa_conclusion (extractFallbackContent c r) = pa_conclusion r
   \<and> pa_title (extractFallbackContent c r) = pa_title r
   \<and> pa_tocItems (extractFallbackContent c r) = pa_tocItems r
   \<and> pa_rawHtml (extractFallbackContent c r) =
       (case firstMatch (blockAt ''workarea_content'') c of
          Some body \<Rightarrow> Some (trim (replaceAll directiveAt [] (replaceAll printTagAt [] body)))
        | None \<Rightarrow> pa_rawHtml r)"
  by (simp add: extractFallbackContent_def split: option.splits)

lemma findFrom_replicate:
  "p \<noteq> [] \<Longrightarrow> hd p \<noteq> a \<Longrightarrow> findFrom p (replicate n a @ t) = map_option (\<lambda>j. n + j) (findFrom p t)"
proof (induction n)
  case 0
  show ?case by (simp add: option.map_ident)
next
  case (Suc n)
  have "\<not> prefix p (a # replicate n a @ t)"
    using Suc.prems by (cases p) auto
  then show ?case using Suc by (simp add: option.map_comp comp_def)
qed

lemma lazyUntil_replicate:
  "(\<And>t. m (a # t) = None) \<Longrightarrow>
   lazyUntil m (replicate n a @ t) = map_option (\<lambda>(b, r). (replicate n a @ b, r)) (lazyUntil m t)"
proof (induction n)
  case 0
  show ?case by (simp add: option.map_ident split_def)
next
  case (Suc n)
  then show ?case by (simp add: option.map_comp comp_def split_def)
qed

lemma replaceAll_replicate:
  "(\<And>t. m (a # t) = None) \<Longrightarrow> replaceAll m rep (replicate n a) = replicate n a"
proof (induction n)
  case 0
  show ?case by (simp add: replaceAll.simps)
next
  case (Suc n)
  then show ?case by (simp add: replaceAll.simps[of m rep "a # replicate n a"])
qed

lemma dropWhile_replicate: "\<not> P a \<Longrightarrow> dropWhile P (replicate n a) = replicate n a"
  by (cases n) simp_all

lemma trim_replicate: "\<not> is_space a \<Longrightarrow> trim (replicate n a) = replicate n a"
  by (simp add: trim_def dropWhile_replicate)

lemma not_space_a: "\<not> is_space CHR ''a''"
  by (simp add: is_space_def)

lemma endblockAt_a: "endblockAt (CHR ''a'' # t) = None"
  by (simp add: endblockAt_def lit_def)

lemma printTagAt_a: "printTagAt (CHR ''a'' # t) = None"
  by (simp add: printTagAt_def lit_def)

lemma directiveAt_a: "directiveAt (CHR ''a'' # t) = None"
  by (simp add: directiveAt_def lit_def)

lemma longRegion_no_set: "\<not> sublist ''{% set article_data'' (longRegionSource n)"
  unfolding findFrom_None_iff[symmetric] longRegionSource_def
  by (simp add: findFrom_replicate)

lemma longRegion_no_macro: "\<not> sublist ''blog_macros.blog_content('' (longRegionSource n)"
  unfolding findFrom_None_iff[symmetric] longRegionSource_def
  by (simp add: findFrom_replicate)

lemma longRegion_block:
  "firstMatch (blockAt ''workarea_content'') (longRegionSource n) = Some (replicate n CHR ''a'')"
proof -
  have e: "lazyUntil endblockAt ''{% endblock %}'' = Some ([], ())"
    by (simp add: endblockAt_def lit_def ws0_def is_space_def)
  have l: "lazyUntil endblockAt (replicate n CHR ''a'' @ ''{% endblock %}'') = Some (replicate n CHR ''a'', ())"
    using lazyUntil_replicate[of endblockAt "CHR ''a''" n "''{% endblock %}''"] endblockAt_a e
    by simp
  have "blockAt ''workarea_content'' (longRegionSource n) = Some (replicate n CHR ''a'')"
    unfolding longRegionSource_def blockAt_def
    by (simp add: lit_def ws0_def ws1_def is_space_def l)
  then show ?thesis
    by (simp add: longRegionSource_def)
qed

lemma longRegion_rawHtml:
  "pa_rawHtml (parseTwigFile (longRegionSource n)) = Some (replicate n CHR ''a'')"
  using extractFallbackContent_fields[of "longRegionSource n" "metaResult (longRegionSource n)"]
  by (simp add: parseTwigFile_fallback[OF longRegion_no_set longRegion_no_macro] longRegion_block
      replaceAll_replicate printTagAt_a directiveAt_a trim_replicate not_space_a)

section \<open>The string extractor\<close>

lemma lit_Some_iff: "lit p s = Some r \<longleftrightarrow> s = p @ r"
  by (auto simp: lit_def prefix_def)

lemma lit_append [simp]: "lit p (p @ r) = Some r"
  by (simp add: lit_Some_iff)

lemma ws0_spaces: "list_all is_space w \<Longrightarrow> \<not> is_space x \<Longrightarrow> ws0 (w @ x # r) = x # r"
  by (induction w) (simp_all add: ws0_def)






lemma not_space_colon: "\<not> is_space CHR '':''" by (simp add: is_space_def)
lemma not_space_quote: "\<not> is_space SQ" by (simp add: is_space_def)



lemma firstMatch_at:
  "n \<le> length s \<Longrightarrow> m (drop n s) = Some a \<Longrightarrow> (\<forall>k<n. m (drop k s) = None) \<Longrightarrow> firstMatch m s = Some a"
proof (induction s arbitrary: n)
  case Nil
  then show ?case by simp
next
  case (Cons c cs)
  show ?case
  proof (cases n)
    case 0
    with Cons.prems show ?thesis by simp
  next
    case (Suc n')
    with Cons.prems have h0: "m (c # cs) = None" by (metis drop0 zero_less_Suc)
    have "\<forall>k<n'. m (drop k cs) = None"
    proof (intro allI impI)
      fix k assume "k < n'"
      then have "Suc k < n" using Suc by simp
      with Cons.prems(3) have "m (drop (Suc k) (c # cs)) = None" by blast
      then show "m (drop k cs) = None" by simp
    qed
    with Cons.IH[of n'] Cons.prems Suc have "firstMatch m cs = Some a" by simp
    with h0 show ?thesis by simp
  qed
qed

lemma firstMatch_None:
  "(\<forall>k\<le>length s. m (drop k s) = None) \<Longrightarrow> firstMatch m s = None"
proof (induction s)
  case Nil
  then show ?case by simp
next
  case (Cons c cs)
  have h0: "m (c # cs) = None" using Cons.prems by (metis drop0 le0)
  have "\<forall>k\<le>length cs. m (drop k cs) = None"
  proof (intro allI impI)
    fix k assume "k \<le> length cs"
    then have "Suc k \<le> length (c # cs)" by simp
    with Cons.prems have "m (drop (Suc k) (c # cs)) = None" by blast
    then show "m (drop k cs) = None" by simp
  qed
  with Cons.IH h0 show ?case by simp
qed






lemma replaceAll_no_first:
  "(\<And>t. m (c # t) = None) \<Longrightarrow> replaceAll m rep (c # cs) = c # replaceAll m rep cs"
  by (simp add: replaceAll.simps[of m rep "c # cs"])


lemma replaceAll_Nil [simp]: "replaceAll m rep [] = []"
  by (simp add: replaceAll.simps)


lemma lit2_other: "c \<noteq> x \<Longrightarrow> lit [x, y] (c # t) = None"
  by (simp add: lit_def)






section \<open>The inline markup converter\<close>


lemma lazyUntil_sound: "lazyUntil m s = Some (b, a) \<Longrightarrow> \<exists>t. s = b @ t \<and> m t = Some a"
proof (induction s arbitrary: b)
  case Nil
  then show ?case by auto
next
  case (Cons c cs)
  show ?case
  proof (cases "m (c # cs)")
    case (Some x)
    with Cons.prems show ?thesis by auto
  next
    case None
    with Cons.prems obtain b' where b': "lazyUntil m cs = Some (b', a)" "b = c # b'" by auto
    from Cons.IH[OF b'(1)] b'(2) show ?thesis by auto
  qed
qed
















section \<open>Properties of the extraction of sections and lists\<close>

lemma extractItems_keep: "item \<in> set (extractItems s) \<Longrightarrow> keepItem item"
  by (simp add: extractItems_def)

lemma parseListObject_items:
  "item \<in> set (list_items (parseListObject s)) \<Longrightarrow> keepItem item"
  by (auto simp: parseListObject_def Let_def extractItems_keep split: if_splits)

lemma parseLists_ok:
  assumes "l \<in> set (parseLists str)"
  shows "listOk l \<and> noBooleanItems l"
proof -
  from assms obtain s where l: "l = parseListObject s" and ne: "list_items l \<noteq> []"
    by (auto simp: parseLists_def Let_def split: if_splits)
  have "\<forall>item\<in>set (list_items l). keepItem item"
    using l parseListObject_items by blast
  then show ?thesis using ne
    by (auto simp: listOk_def noBooleanItems_def list_all_iff keepItem_def)
qed

lemma legacyLists_cases:
  "legacyLists subStr ls =
     (if ls \<noteq> [] then ls
      else case firstMatch simpleListAt subStr of
             Some body \<Rightarrow>
               if extractLegacyItems body \<noteq> []
               then [\<lparr> list_title = [], list_ordered = False, list_items = extractLegacyItems body \<rparr>]
               else []
           | None \<Rightarrow> [])"
  by (auto simp: legacyLists_def Let_def split: option.splits)

lemma extractLegacyItems_long: "item \<in> set (extractLegacyItems s) \<Longrightarrow> length item > 2"
  by (simp add: extractLegacyItems_def)

lemma legacyLists_ok:
  assumes "\<forall>l\<in>set ls. listOk l" and "l \<in> set (legacyLists subStr ls)"
  shows "listOk l"
proof (cases "ls \<noteq> []")
  case True
  with assms show ?thesis by (simp add: legacyLists_cases)
next
  case False
  with assms(2) obtain body where
    "l = \<lparr> list_title = [], list_ordered = False, list_items = extractLegacyItems body \<rparr>"
    "extractLegacyItems body \<noteq> []"
    by (auto simp: legacyLists_cases split: option.splits if_splits)
  then show ?thesis
    using extractLegacyItems_long by (auto simp: listOk_def list_all_iff)
qed

lemma parseSubsection_lists_ok: "l \<in> set (sub_lists (parseSubsection s)) \<Longrightarrow> listOk l"
proof -
  assume a: "l \<in> set (sub_lists (parseSubsection s))"
  have "\<forall>l\<in>set (parseLists s). listOk l" using parseLists_ok by blast
  moreover have "l \<in> set (legacyLists s (parseLists s))"
    using a by (simp add: parseSubsection_def Let_def)
  ultimately show ?thesis by (rule legacyLists_ok)
qed

lemma parseSection_lists_ok: "sectionListsOk (parseSection s)"
proof -
  have a: "list_all listOk (sec_lists (parseSection s))"
    using parseLists_ok by (auto simp: parseSection_def Let_def list_all_iff)
  have b: "list_all (\<lambda>sub. list_all listOk (sub_lists sub)) (sec_subsections (parseSection s))"
    using parseSubsection_lists_ok
    by (auto simp: parseSection_def Let_def parseSubsections_def list_all_iff)
  from a b show ?thesis by (simp add: sectionListsOk_def)
qed

lemma parseContentSections_lists_ok: "list_all sectionListsOk (parseContentSections h)"
  by (auto simp: parseContentSections_def Let_def list_all_iff parseSection_lists_ok)

lemma parseTwigFile_sections:
  "pa_contentSections (parseTwigFile content) = None
   \<or> (\<exists>h. pa_contentSections (parseTwigFile content) = Some (parseContentSections h))"
proof -
  have m: "pa_contentSections (metaResult content) = None" using metaResult_fields by blast
  have "parseTwigFile content =
     (if indexOf content ''{% set article_data'' \<noteq> - 1
      then parseArticleDataPattern content (indexOf content ''{% set article_data'') (metaResult content)
      else if indexOf content ''blog_macros.blog_content('' \<noteq> - 1
      then parseMacroCallPattern content (indexOf content ''blog_macros.blog_content('') (metaResult content)
      else extractFallbackContent content (metaResult content))"
    unfolding parseTwigFile_def metaResult_def Let_def ..
  moreover have "\<exists>h. pa_contentSections (parseArticleDataPattern content k r) = Some (parseContentSections h)" for k r
    by (auto simp: parseArticleDataPattern_def Let_def)
  moreover have "\<exists>h. pa_contentSections (parseMacroCallPattern content k r) = Some (parseContentSections h)" for k r
    by (auto simp: parseMacroCallPattern_def Let_def)
  moreover have "pa_contentSections (extractFallbackContent content (metaResult content)) = None"
    using extractFallbackContent_fields[of content "metaResult content"] m by simp
  ultimately show ?thesis by auto
qed





section \<open>Claims about sections and lists\<close>

text \<open>
  Claim C10, as amended. In every article that \<open>parseTwigFile\<close> returns, every list of a
  section or of a subsection has an item, and every item is longer than two characters:
  a list left without items is omitted. The lists of a \<^verbatim>\<open>lists\<close> field hold neither the
  string \<^verbatim>\<open>true\<close> nor the string \<^verbatim>\<open>false\<close>; the legacy list of a subsection satisfies the
  invariant on the lengths only.
\<close>

theorem extracted_lists_have_long_items:
  "(case pa_contentSections (parseTwigFile content) of
      None \<Rightarrow> True | Some secs \<Rightarrow> list_all sectionListsOk secs)
   \<and> list_all (\<lambda>l. listOk l \<and> noBooleanItems l) (parseLists str)
   \<and> list_all listOk (sub_lists (parseSubsection str))"
proof -
  have a: "case pa_contentSections (parseTwigFile content) of
      None \<Rightarrow> True | Some secs \<Rightarrow> list_all sectionListsOk secs"
    using parseTwigFile_sections[of content] parseContentSections_lists_ok
    by (auto split: option.splits)
  have b: "list_all (\<lambda>l. listOk l \<and> noBooleanItems l) (parseLists str)"
    using parseLists_ok by (auto simp: list_all_iff)
  have c: "list_all listOk (sub_lists (parseSubsection str))"
    using parseSubsection_lists_ok by (auto simp: list_all_iff)
  from a b c show ?thesis by blast
qed

text \<open>The theorem at a source with two lists: of the first the item \<^verbatim>\<open>abc\<close> is kept, the
  second is left without items and omitted.\<close>

theorem extracted_lists_have_long_items_witness:
  "pa_contentSections (parseTwigFile
      ''{% set article_data = { 'content_sections': [ { 'lists': [ { 'items': ['abc', 'x', 'true'] }, { 'items': ['y'] } ] } ] } %}'')
     = Some [emptySection \<lparr> sec_lists := [untitledList [''abc'']] \<rparr>]
   \<and> sectionListsOk (emptySection \<lparr> sec_lists := [untitledList [''abc'']] \<rparr>)"
proof -
  let ?src = "''{% set article_data = { 'content_sections': [ { 'lists': [ { 'items': ['abc', 'x', 'true'] }, { 'items': ['y'] } ] } ] } %}''"
  have e: "pa_contentSections (parseTwigFile ?src) = Some [emptySection \<lparr> sec_lists := [untitledList [''abc'']] \<rparr>]"
    by code_simp
  from extracted_lists_have_long_items[of ?src] e
  have "sectionListsOk (emptySection \<lparr> sec_lists := [untitledList [''abc'']] \<rparr>)" by simp
  with e show ?thesis by blast
qed

text \<open>
  Claim C10 as stated fails in what it says of boolean tokens: the legacy path tests the
  length only, so the legacy list of this subsection keeps the item \<^verbatim>\<open>true\<close> (and drops
  \<^verbatim>\<open>no\<close>, which is too short).
\<close>

theorem legacy_items_keep_boolean_counterexample:
  "pa_contentSections (parseTwigFile
      ''{% set article_data = { 'content_sections': [ { 'subsections': [ { 'items': ['true', 'no'] } ] } ] } %}'')
     = Some [emptySection \<lparr> sec_subsections := [subsectionWith [untitledList [''true'']]] \<rparr>]"
  by code_simp







section \<open>The table of contents\<close>

lemma upTo_complete: "q \<notin> set b \<Longrightarrow> upTo q (b @ q # r) = Some (b, r)"
  by (induction b) auto

lemma not_space_comma: "\<not> is_space CHR '',''" by (simp add: is_space_def)
lemma not_space_rbrace: "\<not> is_space CHR ''}''" by (simp add: is_space_def)

lemma quoted_value_step:
  assumes "list_all is_space w" "SQ \<notin> set v"
  shows "lit [SQ] (ws0 (w @ SQ # v @ SQ # r)) = Some (v @ SQ # r)"
    and "upTo SQ (v @ SQ # r) = Some (v, r)"
  using assms by (simp_all add: ws0_spaces not_space_quote lit_def upTo_complete)

lemma quoted_key_step:
  assumes "list_all is_space w"
  shows "lit (SQ # k @ [SQ]) (ws0 (w @ SQ # k @ SQ # r)) = Some r"
  using assms by (simp add: ws0_spaces not_space_quote lit_Some_iff)

lemma char_step:
  assumes "list_all is_space w" "\<not> is_space c"
  shows "lit [c] (ws0 (w @ c # r)) = Some r"
  using assms by (simp add: ws0_spaces lit_def)

lemma pairAt_object:
  assumes w: "list_all is_space w1" "list_all is_space w2" "list_all is_space w3"
      "list_all is_space w4" "list_all is_space w5" "list_all is_space w6"
      "list_all is_space w7" "list_all is_space w8"
    and v: "SQ \<notin> set v1" "SQ \<notin> set v2"
  shows "pairAt k1 k2
           (CHR ''{'' # w1 @ SQ # k1 @ SQ # w2 @ CHR '':'' # w3 @ SQ # v1 @ SQ # w4 @ CHR '','' #
            w5 @ SQ # k2 @ SQ # w6 @ CHR '':'' # w7 @ SQ # v2 @ SQ # w8 @ CHR ''}'' # rest)
         = Some ((v1, v2), rest)"
  unfolding pairAt_def
  by (simp add: lit_def[of "''{''"] quoted_key_step[OF w(1)] char_step[OF w(2) not_space_colon]
      quoted_value_step[OF w(3) v(1)] char_step[OF w(4) not_space_comma]
      quoted_key_step[OF w(5)] char_step[OF w(6) not_space_colon]
      quoted_value_step[OF w(7) v(2)] char_step[OF w(8) not_space_rbrace])

lemma macroTocItems_cascade:
  "macroTocItems macroArgs =
     (if allMatches (pairAt ''title'' ''href'') (afterSections macroArgs) \<noteq> []
      then map titleHref (allMatches (pairAt ''title'' ''href'') (afterSections macroArgs))
      else if allMatches (pairAt ''href'' ''title'') (afterSections macroArgs) \<noteq> []
      then map hrefTitle (allMatches (pairAt ''href'' ''title'') (afterSections macroArgs))
      else map titleHref (filter (\<lambda>p. startsWith (snd p) ''#'')
                           (allMatches (pairAt ''title'' ''href'') macroArgs)))"
proof -
  have a: "(\<lambda>(t, h). \<lparr> toc_href = h, toc_title = t \<rparr>) = titleHref"
    by (auto simp: titleHref_def)
  have b: "(\<lambda>(h, t). \<lparr> toc_href = h, toc_title = t \<rparr>) = hrefTitle"
    by (auto simp: hrefTitle_def)
  have c: "(\<lambda>(t, h). startsWith h ''#'') = (\<lambda>p. startsWith (snd p) ''#'')"
    by auto
  show ?thesis
    unfolding macroTocItems_def Let_def a b c by simp
qed

lemma named_tocItems:
  "pa_tocItems (parseArticleDataPattern content k r) =
     Some (map hrefTitle (allMatches (pairAt ''href'' ''title'') (articleHash content k)))"
proof -
  have b: "(\<lambda>(h, t). \<lparr> toc_href = h, toc_title = t \<rparr>) = hrefTitle"
    by (auto simp: hrefTitle_def)
  show ?thesis by (simp add: parseArticleDataPattern_def Let_def b)
qed

lemma macro_tocItems:
  "pa_tocItems (parseMacroCallPattern content k r) = Some (macroTocItems (macroArguments content k))"
  by (simp add: parseMacroCallPattern_def Let_def)

section \<open>The fallback region and the removal of tags\<close>

lemma lazyUntil_first: "lazyUntil m s = Some (b, a) \<Longrightarrow> k < length b \<Longrightarrow> m (drop k s) = None"
proof (induction s arbitrary: b k)
  case Nil
  then show ?case by auto
next
  case (Cons c cs)
  show ?case
  proof (cases "m (c # cs)")
    case (Some x)
    with Cons.prems show ?thesis by auto
  next
    case None
    with Cons.prems obtain b' where b': "lazyUntil m cs = Some (b', a)" "b = c # b'" by auto
    show ?thesis
    proof (cases k)
      case 0
      with None show ?thesis by simp
    next
      case (Suc k')
      with Cons.prems b' have "k' < length b'" by simp
      from Cons.IH[OF b'(1) this] Suc show ?thesis by simp
    qed
  qed
qed

lemma lazyUntil_complete:
  "m t = Some a \<Longrightarrow> (\<forall>k<length b. m (drop k (b @ t)) = None) \<Longrightarrow> lazyUntil m (b @ t) = Some (b, a)"
proof (induction b)
  case Nil
  then show ?case by (cases t) simp_all
next
  case (Cons c b)
  from Cons.prems(2) have h0: "m (c # b @ t) = None" by (metis append_Cons drop0 length_greater_0_conv list.discI)
  have "\<forall>k<length b. m (drop k (b @ t)) = None"
  proof (intro allI impI)
    fix k assume "k < length b"
    then have "Suc k < length (c # b)" by simp
    with Cons.prems(2) have "m (drop (Suc k) ((c # b) @ t)) = None" by blast
    then show "m (drop k (b @ t)) = None" by simp
  qed
  with Cons.IH Cons.prems(1) have "lazyUntil m (b @ t) = Some (b, a)" by blast
  with h0 show ?case by simp
qed

lemma dotLazy_hit: "m s = Some a \<Longrightarrow> dotLazy m s = Some a"
  by (cases s) simp_all

lemma dotLazy_lit_iff:
  "dotLazy (lit p) s = Some r \<longleftrightarrow>
     (\<exists>b. s = b @ p @ r \<and> list_all (\<lambda>c. \<not> is_line_term c) b
          \<and> (\<forall>k<length b. \<not> prefix p (drop k s)))"
proof (induction s)
  case Nil
  show ?case by (auto simp: lit_def)
next
  case (Cons c cs)
  show ?case
  proof (cases "prefix p (c # cs)")
    case True
    then have l: "lit p (c # cs) = Some (drop (length p) (c # cs))" by (simp add: lit_def)
    have "(\<exists>b. c # cs = b @ p @ r \<and> list_all (\<lambda>c. \<not> is_line_term c) b
          \<and> (\<forall>k<length b. \<not> prefix p (drop k (c # cs)))) \<longleftrightarrow> c # cs = p @ r"
    proof
      assume "\<exists>b. c # cs = b @ p @ r \<and> list_all (\<lambda>c. \<not> is_line_term c) b
          \<and> (\<forall>k<length b. \<not> prefix p (drop k (c # cs)))"
      then obtain b where b: "c # cs = b @ p @ r" "\<forall>k<length b. \<not> prefix p (drop k (c # cs))" by blast
      have "b = []"
      proof (rule ccontr)
        assume "b \<noteq> []"
        then have "0 < length b" by simp
        with b(2) have "\<not> prefix p (drop 0 (c # cs))" by blast
        with True show False by simp
      qed
      with b(1) show "c # cs = p @ r" by simp
    next
      assume "c # cs = p @ r"
      then have "c # cs = [] @ p @ r \<and> list_all (\<lambda>c. \<not> is_line_term c) []
          \<and> (\<forall>k<length ([]::string). \<not> prefix p (drop k (c # cs)))" by simp
      then show "\<exists>b. c # cs = b @ p @ r \<and> list_all (\<lambda>c. \<not> is_line_term c) b
          \<and> (\<forall>k<length b. \<not> prefix p (drop k (c # cs)))" by blast
    qed
    moreover have "dotLazy (lit p) (c # cs) = Some r \<longleftrightarrow> c # cs = p @ r"
      using l True by (auto simp: lit_Some_iff prefix_def)
    ultimately show ?thesis by simp
  next
    case False
    then have l: "lit p (c # cs) = None" by (simp add: lit_def)
    show ?thesis
    proof (cases "is_line_term c")
      case True
      have "\<not> (\<exists>b. c # cs = b @ p @ r \<and> list_all (\<lambda>c. \<not> is_line_term c) b
          \<and> (\<forall>k<length b. \<not> prefix p (drop k (c # cs))))"
      proof
        assume "\<exists>b. c # cs = b @ p @ r \<and> list_all (\<lambda>c. \<not> is_line_term c) b
          \<and> (\<forall>k<length b. \<not> prefix p (drop k (c # cs)))"
        then obtain b where b: "c # cs = b @ p @ r" "list_all (\<lambda>c. \<not> is_line_term c) b" by blast
        show False
        proof (cases b)
          case Nil
          with b(1) False show False by (simp add: prefix_def)
        next
          case (Cons x xs)
          with b True show False by simp
        qed
      qed
      with l True show ?thesis by simp
    next
      case nl: False
      have "(\<exists>b. c # cs = b @ p @ r \<and> list_all (\<lambda>c. \<not> is_line_term c) b
          \<and> (\<forall>k<length b. \<not> prefix p (drop k (c # cs))))
        \<longleftrightarrow> (\<exists>b'. cs = b' @ p @ r \<and> list_all (\<lambda>c. \<not> is_line_term c) b'
          \<and> (\<forall>k<length b'. \<not> prefix p (drop k cs)))"
      proof
        assume "\<exists>b. c # cs = b @ p @ r \<and> list_all (\<lambda>c. \<not> is_line_term c) b
          \<and> (\<forall>k<length b. \<not> prefix p (drop k (c # cs)))"
        then obtain b where b: "c # cs = b @ p @ r" "list_all (\<lambda>c. \<not> is_line_term c) b"
          "\<forall>k<length b. \<not> prefix p (drop k (c # cs))" by blast
        from b(1) False obtain b' where b': "b = c # b'" by (cases b) (auto simp: prefix_def)
        have "\<forall>k<length b'. \<not> prefix p (drop k cs)"
        proof (intro allI impI)
          fix k assume "k < length b'"
          then have "Suc k < length b" using b' by simp
          with b(3) have "\<not> prefix p (drop (Suc k) (c # cs))" by blast
          then show "\<not> prefix p (drop k cs)" by simp
        qed
        with b b' show "\<exists>b'. cs = b' @ p @ r \<and> list_all (\<lambda>c. \<not> is_line_term c) b'
          \<and> (\<forall>k<length b'. \<not> prefix p (drop k cs))" by auto
      next
        assume "\<exists>b'. cs = b' @ p @ r \<and> list_all (\<lambda>c. \<not> is_line_term c) b'
          \<and> (\<forall>k<length b'. \<not> prefix p (drop k cs))"
        then obtain b' where b': "cs = b' @ p @ r" "list_all (\<lambda>c. \<not> is_line_term c) b'"
          "\<forall>k<length b'. \<not> prefix p (drop k cs)" by blast
        have "\<forall>k<length (c # b'). \<not> prefix p (drop k (c # cs))"
        proof (intro allI impI)
          fix k assume k: "k < length (c # b')"
          show "\<not> prefix p (drop k (c # cs))"
          proof (cases k)
            case 0
            with False show ?thesis by simp
          next
            case (Suc k')
            with k b'(3) show ?thesis by simp
          qed
        qed
        with b' nl have "c # cs = (c # b') @ p @ r \<and> list_all (\<lambda>c. \<not> is_line_term c) (c # b')
          \<and> (\<forall>k<length (c # b'). \<not> prefix p (drop k (c # cs)))" by simp
        then show "\<exists>b. c # cs = b @ p @ r \<and> list_all (\<lambda>c. \<not> is_line_term c) b
          \<and> (\<forall>k<length b. \<not> prefix p (drop k (c # cs)))" by blast
      qed
      with l nl Cons.IH show ?thesis by simp
    qed
  qed
qed

lemma tag_matcher_iff:
  "(do { r0 \<leftarrow> lit opn s; dotLazy (lit cls) r0 }) = Some r \<longleftrightarrow> spec_tagAt opn cls s r"
proof -
  have "(do { r0 \<leftarrow> lit opn s; dotLazy (lit cls) r0 }) = Some r
      \<longleftrightarrow> (\<exists>r0. s = opn @ r0 \<and> dotLazy (lit cls) r0 = Some r)"
    by (auto simp: lit_Some_iff split: bind_splits)
  also have "\<dots> \<longleftrightarrow> (\<exists>r0 b. s = opn @ r0 \<and> r0 = b @ cls @ r \<and> list_all (\<lambda>c. \<not> is_line_term c) b
          \<and> (\<forall>k<length b. \<not> prefix cls (drop k r0)))"
    by (simp add: dotLazy_lit_iff)
  also have "\<dots> \<longleftrightarrow> spec_tagAt opn cls s r"
    unfolding spec_tagAt_def by auto
  finally show ?thesis .
qed

lemma printTagAt_iff: "printTagAt s = Some r \<longleftrightarrow> spec_tagAt ''{{'' ''}}'' s r"
  unfolding printTagAt_def by (rule tag_matcher_iff)

lemma directiveAt_iff: "directiveAt s = Some r \<longleftrightarrow> spec_tagAt ''{%'' ''%}'' s r"
  unfolding directiveAt_def by (rule tag_matcher_iff)

lemma spec_tagAt_shorter: "spec_tagAt opn cls s r \<Longrightarrow> opn \<noteq> [] \<Longrightarrow> length r < length s"
  by (auto simp: spec_tagAt_def)

lemma replaceAll_hit:
  assumes "m s = Some r" and "length r < length s"
  shows "replaceAll m rep s = rep @ replaceAll m rep r"
proof (cases s)
  case Nil
  with assms show ?thesis by simp
next
  case (Cons c cs)
  show ?thesis
    using assms unfolding Cons by (simp add: replaceAll.simps[of m rep "c # cs"])
qed

lemma replaceAll_kept:
  "(\<forall>k<length a. m (drop k (a @ s)) = None) \<Longrightarrow> replaceAll m rep (a @ s) = a @ replaceAll m rep s"
proof (induction a)
  case Nil
  show ?case by simp
next
  case (Cons c a)
  from Cons.prems have h0: "m (c # a @ s) = None" by (metis append_Cons drop0 length_greater_0_conv list.discI)
  have "\<forall>k<length a. m (drop k (a @ s)) = None"
  proof (intro allI impI)
    fix k assume "k < length a"
    then have "Suc k < length (c # a)" by simp
    with Cons.prems have "m (drop (Suc k) ((c # a) @ s)) = None" by blast
    then show "m (drop k (a @ s)) = None" by simp
  qed
  with Cons.IH have "replaceAll m rep (a @ s) = a @ replaceAll m rep s" by blast
  with h0 show ?case by (simp add: replaceAll.simps[of m rep "c # a @ s"])
qed

lemma strip_step:
  assumes iff: "\<And>s r. m s = Some r \<longleftrightarrow> spec_tagAt opn cls s r" and ne: "opn \<noteq> []"
    and tag: "spec_tagAt opn cls s r"
    and before: "\<forall>k<length a. \<forall>r'. \<not> spec_tagAt opn cls (drop k (a @ s)) r'"
  shows "replaceAll m [] (a @ s) = a @ replaceAll m [] r"
proof -
  have "\<forall>k<length a. m (drop k (a @ s)) = None"
  proof (intro allI impI)
    fix k assume k: "k < length a"
    show "m (drop k (a @ s)) = None"
    proof (cases "m (drop k (a @ s))")
      case None then show ?thesis .
    next
      case (Some r')
      with iff have "spec_tagAt opn cls (drop k (a @ s)) r'" by blast
      with before k show ?thesis by blast
    qed
  qed
  then have "replaceAll m [] (a @ s) = a @ replaceAll m [] s" by (rule replaceAll_kept)
  moreover have "m s = Some r" using iff tag by blast
  moreover have "length r < length s" using spec_tagAt_shorter[OF tag ne] .
  ultimately show ?thesis by (simp add: replaceAll_hit)
qed

lemma strip_none:
  assumes iff: "\<And>s r. m s = Some r \<longleftrightarrow> spec_tagAt opn cls s r"
    and none: "\<forall>k<length a. \<forall>r'. \<not> spec_tagAt opn cls (drop k a) r'"
  shows "replaceAll m [] a = a"
proof -
  have "\<forall>k<length a. m (drop k (a @ [])) = None"
  proof (intro allI impI)
    fix k assume k: "k < length a"
    show "m (drop k (a @ [])) = None"
    proof (cases "m (drop k a)")
      case None then show ?thesis by simp
    next
      case (Some r')
      with iff have "spec_tagAt opn cls (drop k a) r'" by blast
      with none k show ?thesis by blast
    qed
  qed
  then have "replaceAll m [] (a @ []) = a @ replaceAll m [] []" by (rule replaceAll_kept)
  then show ?thesis by simp
qed

lemma ws0_split: "\<exists>w. s = w @ ws0 s \<and> list_all is_space w"
proof -
  have "s = takeWhile is_space s @ dropWhile is_space s" by simp
  moreover have "list_all is_space (takeWhile is_space s)"
    by (simp add: list_all_iff) (metis set_takeWhileD)
  ultimately show ?thesis unfolding ws0_def by metis
qed

lemma ws0_spaces_app: "list_all is_space w \<Longrightarrow> t \<noteq> [] \<Longrightarrow> \<not> is_space (hd t) \<Longrightarrow> ws0 (w @ t) = t"
  by (cases t) (simp_all add: ws0_spaces)

lemma endblockAt_iff: "endblockAt s = Some () \<longleftrightarrow> spec_endblockTag s"
proof
  assume "endblockAt s = Some ()"
  then obtain r1 r2 where l1: "lit ''{%'' s = Some r1" and l2: "lit ''endblock'' (ws0 r1) = Some r2"
    by (auto simp: endblockAt_def split: bind_splits)
  from ws0_split[of r1] obtain w where w: "r1 = w @ ws0 r1" "list_all is_space w" by blast
  from l2 have "ws0 r1 = ''endblock'' @ r2" by (simp only: lit_Some_iff)
  with w l1 have "s = ''{%'' @ w @ ''endblock'' @ r2" by (simp add: lit_Some_iff)
  with w(2) show "spec_endblockTag s" unfolding spec_endblockTag_def by blast
next
  assume "spec_endblockTag s"
  then obtain w r where s: "s = ''{%'' @ w @ ''endblock'' @ r" and w: "list_all is_space w"
    unfolding spec_endblockTag_def by blast
  have a: "lit ''{%'' s = Some (w @ ''endblock'' @ r)" unfolding s lit_Some_iff by simp
  have b: "ws0 (w @ ''endblock'' @ r) = ''endblock'' @ r"
    by (rule ws0_spaces_app[OF w]) (simp_all add: is_space_def)
  show "endblockAt s = Some ()"
    unfolding endblockAt_def a by (simp only: bind.bind_lunit b lit_append)
qed

lemma endblockAt_None_iff: "endblockAt s = None \<longleftrightarrow> \<not> spec_endblockTag s"
  using endblockAt_iff[of s] by (cases "endblockAt s") auto

lemma blockAt_iff:
  "blockAt ''workarea_content'' t = Some body \<longleftrightarrow>
     (\<exists>w1 w2 w3 rest.
         t = ''{%'' @ w1 @ ''block'' @ w2 @ ''workarea_content'' @ w3 @ ''%}'' @ body @ rest
         \<and> list_all is_space w1 \<and> list_all is_space w2 \<and> w2 \<noteq> [] \<and> list_all is_space w3
         \<and> spec_endblockTag rest
         \<and> (\<forall>k<length body. \<not> spec_endblockTag (drop k (body @ rest))))"
proof
  assume "blockAt ''workarea_content'' t = Some body"
  then obtain r1 r2 r3 r4 r5 u where
    l1: "lit ''{%'' t = Some r1" and l2: "lit ''block'' (ws0 r1) = Some r2"
    and l3: "ws1 r2 = Some r3" and l4: "lit ''workarea_content'' r3 = Some r4"
    and l5: "lit ''%}'' (ws0 r4) = Some r5" and z: "lazyUntil endblockAt r5 = Some (body, u)"
    by (auto simp: blockAt_def split: bind_splits)
  from ws0_split[of r1] obtain w1 where w1: "r1 = w1 @ ws0 r1" "list_all is_space w1" by blast
  from l3 obtain c cs where c: "r2 = c # cs" "is_space c" "r3 = ws0 cs"
    by (auto simp: ws1_def split: list.splits if_splits)
  from ws0_split[of cs] obtain w2' where w2': "cs = w2' @ ws0 cs" "list_all is_space w2'" by blast
  from ws0_split[of r4] obtain w3 where w3: "r4 = w3 @ ws0 r4" "list_all is_space w3" by blast
  from lazyUntil_sound[OF z] obtain rest where rest: "r5 = body @ rest" "endblockAt rest = Some u" by blast
  have e1: "ws0 r1 = ''block'' @ r2" using l2 by (simp only: lit_Some_iff)
  have e4: "r3 = ''workarea_content'' @ r4" using l4 by (simp only: lit_Some_iff)
  have e5: "ws0 r4 = ''%}'' @ r5" using l5 by (simp only: lit_Some_iff)
  have t1: "t = ''{%'' @ r1" using l1 by (simp only: lit_Some_iff)
  have r1e: "r1 = w1 @ ''block'' @ r2" using w1(1) e1 by simp
  have r2e: "r2 = (c # w2') @ ''workarea_content'' @ r4" using c w2'(1) e4 by simp
  have r4e: "r4 = w3 @ ''%}'' @ body @ rest" using w3(1) e5 rest(1) by simp
  have teq: "t = ''{%'' @ w1 @ ''block'' @ (c # w2') @ ''workarea_content'' @ w3 @ ''%}'' @ body @ rest"
    unfolding t1 r1e r2e r4e by simp
  have sp: "spec_endblockTag rest" using rest(2) endblockAt_iff[of rest] by simp
  have fi: "\<forall>k<length body. \<not> spec_endblockTag (drop k (body @ rest))"
  proof (intro allI impI)
    fix k assume "k < length body"
    from lazyUntil_first[OF z this] rest(1) show "\<not> spec_endblockTag (drop k (body @ rest))"
      by (simp add: endblockAt_None_iff)
  qed
  have "list_all is_space (c # w2')" "c # w2' \<noteq> []" using c(2) w2'(2) by simp_all
  with teq w1(2) w3(2) sp fi
  show "\<exists>w1 w2 w3 rest.
         t = ''{%'' @ w1 @ ''block'' @ w2 @ ''workarea_content'' @ w3 @ ''%}'' @ body @ rest
         \<and> list_all is_space w1 \<and> list_all is_space w2 \<and> w2 \<noteq> [] \<and> list_all is_space w3
         \<and> spec_endblockTag rest
         \<and> (\<forall>k<length body. \<not> spec_endblockTag (drop k (body @ rest)))"
    by blast
next
  assume "\<exists>w1 w2 w3 rest.
         t = ''{%'' @ w1 @ ''block'' @ w2 @ ''workarea_content'' @ w3 @ ''%}'' @ body @ rest
         \<and> list_all is_space w1 \<and> list_all is_space w2 \<and> w2 \<noteq> [] \<and> list_all is_space w3
         \<and> spec_endblockTag rest
         \<and> (\<forall>k<length body. \<not> spec_endblockTag (drop k (body @ rest)))"
  then obtain w1 w2 w3 rest where
    t: "t = ''{%'' @ w1 @ ''block'' @ w2 @ ''workarea_content'' @ w3 @ ''%}'' @ body @ rest"
    and w: "list_all is_space w1" "list_all is_space w2" "w2 \<noteq> []" "list_all is_space w3"
    and sp: "spec_endblockTag rest"
    and fi: "\<forall>k<length body. \<not> spec_endblockTag (drop k (body @ rest))"
    by blast
  from w(3) obtain c w2' where w2: "w2 = c # w2'" by (cases w2) auto
  with w(2) have c: "is_space c" "list_all is_space w2'" by simp_all
  have a1: "lit ''{%'' t = Some (w1 @ ''block'' @ w2 @ ''workarea_content'' @ w3 @ ''%}'' @ body @ rest)"
    unfolding t lit_Some_iff by simp
  have a2: "ws0 (w1 @ ''block'' @ w2 @ ''workarea_content'' @ w3 @ ''%}'' @ body @ rest)
      = ''block'' @ w2 @ ''workarea_content'' @ w3 @ ''%}'' @ body @ rest"
    by (rule ws0_spaces_app[OF w(1)]) (simp_all add: is_space_def)
  have a3: "lit ''block'' (''block'' @ w2 @ ''workarea_content'' @ w3 @ ''%}'' @ body @ rest)
      = Some (w2 @ ''workarea_content'' @ w3 @ ''%}'' @ body @ rest)"
    by (rule lit_append)
  have a4: "ws0 (w2' @ ''workarea_content'' @ w3 @ ''%}'' @ body @ rest)
      = ''workarea_content'' @ w3 @ ''%}'' @ body @ rest"
    by (rule ws0_spaces_app[OF c(2)]) (simp_all add: is_space_def)
  have a5: "ws1 (w2 @ ''workarea_content'' @ w3 @ ''%}'' @ body @ rest)
      = Some (''workarea_content'' @ w3 @ ''%}'' @ body @ rest)"
    unfolding w2 using c(1) a4 by (simp add: ws1_def)
  have a6: "lit ''workarea_content'' (''workarea_content'' @ w3 @ ''%}'' @ body @ rest)
      = Some (w3 @ ''%}'' @ body @ rest)"
    by (rule lit_append)
  have a7: "ws0 (w3 @ ''%}'' @ body @ rest) = ''%}'' @ body @ rest"
    by (rule ws0_spaces_app[OF w(4)]) (simp_all add: is_space_def)
  have a8: "lit ''%}'' (''%}'' @ body @ rest) = Some (body @ rest)"
    by (rule lit_append)
  have e: "endblockAt rest = Some ()" using sp by (simp add: endblockAt_iff)
  have "\<forall>k<length body. endblockAt (drop k (body @ rest)) = None"
    using fi by (simp add: endblockAt_None_iff)
  from lazyUntil_complete[OF e this] have a9: "lazyUntil endblockAt (body @ rest) = Some (body, ())" .
  show "blockAt ''workarea_content'' t = Some body"
    unfolding blockAt_def a1 by (simp only: bind.bind_lunit a2 a3 a5 a6 a7 a8 a9 split_conv)
qed

lemma blockAt_region:
  "n \<le> length content \<Longrightarrow>
   blockAt ''workarea_content'' (drop n content) = Some body \<longleftrightarrow> spec_regionAt content n body"
  unfolding blockAt_iff spec_regionAt_def by simp

lemma region_first:
  assumes "spec_regionAt content n body" and "\<forall>k<n. \<forall>b. \<not> spec_regionAt content k b"
  shows "firstMatch (blockAt ''workarea_content'') content = Some body"
proof -
  from assms(1) have n: "n \<le> length content" by (simp add: spec_regionAt_def)
  have hit: "blockAt ''workarea_content'' (drop n content) = Some body"
    using assms(1) n by (simp add: blockAt_region)
  have "\<forall>k<n. blockAt ''workarea_content'' (drop k content) = None"
  proof (intro allI impI)
    fix k assume k: "k < n"
    show "blockAt ''workarea_content'' (drop k content) = None"
    proof (cases "blockAt ''workarea_content'' (drop k content)")
      case None then show ?thesis .
    next
      case (Some b)
      with k n have "spec_regionAt content k b" by (simp add: blockAt_region)
      with assms(2) k show ?thesis by blast
    qed
  qed
  from firstMatch_at[OF n hit this] show ?thesis .
qed

lemma region_none:
  assumes "\<forall>n b. \<not> spec_regionAt content n b"
  shows "firstMatch (blockAt ''workarea_content'') content = None"
proof -
  have "\<forall>k\<le>length content. blockAt ''workarea_content'' (drop k content) = None"
  proof (intro allI impI)
    fix k assume k: "k \<le> length content"
    show "blockAt ''workarea_content'' (drop k content) = None"
    proof (cases "blockAt ''workarea_content'' (drop k content)")
      case None then show ?thesis .
    next
      case (Some b)
      with k have "spec_regionAt content k b" by (simp add: blockAt_region)
      with assms show ?thesis by blast
    qed
  qed
  then show ?thesis by (rule firstMatch_None)
qed

text \<open>
  Claim C3, as amended. When neither marker occurs in the source, \<open>parseTwigFile\<close> runs
  the fallback, and no field of a grammar is set. When the source has a fallback region,
  \<^verbatim>\<open>rawHtml\<close> is the body of the first one, that is the text between the opening tag of
  the block \<^verbatim>\<open>workarea_content\<close> and the first \<^verbatim>\<open>endblock\<close> directive after it, with the
  print tags and then the directives that open and close on one line removed, then
  trimmed, at its full length; when the source has no region, \<^verbatim>\<open>rawHtml\<close> is not set.
  The removal keeps the text before the first tag, drops the tag and goes on after it,
  and leaves a text without tag as it is. With nested blocks the region ends at the inner
  \<^verbatim>\<open>endblock\<close>. The blocks of the article are one Paragraph with the first 2000
  characters of \<^verbatim>\<open>rawHtml\<close> when \<^verbatim>\<open>rawHtml\<close> is set and not empty, none otherwise.
\<close>

theorem raw_fallback_dispatch:
  assumes "\<not> sublist ''{% set article_data'' content"
    and "\<not> sublist ''blog_macros.blog_content('' content"
  shows "parseTwigFile content = extractFallbackContent content (metaResult content)
    \<and> pa_title (parseTwigFile content) = None
    \<and> pa_introText (parseTwigFile content) = None
    \<and> pa_tocItems (parseTwigFile content) = None
    \<and> pa_contentSections (parseTwigFile content) = None
    \<and> pa_conclusion (parseTwigFile content) = None
    \<and> pa_rawHtml (parseTwigFile content) =
         map_option (\<lambda>body. trim (replaceAll directiveAt [] (replaceAll printTagAt [] body)))
           (firstMatch (blockAt ''workarea_content'') content)
    \<and> buildRichTextContent (parseTwigFile content) =
         (case pa_rawHtml (parseTwigFile content) of
            Some raw \<Rightarrow> if raw \<noteq> [] then [Paragraph [plainRun (take 2000 raw)]] else []
          | None \<Rightarrow> [])
    \<and> (spec_regionAt content n body \<and> (\<forall>k<n. \<forall>b. \<not> spec_regionAt content k b) \<longrightarrow>
          pa_rawHtml (parseTwigFile content) =
            Some (trim (replaceAll directiveAt [] (replaceAll printTagAt [] body))))
    \<and> ((\<forall>n b. \<not> spec_regionAt content n b) \<longrightarrow> pa_rawHtml (parseTwigFile content) = None)
    \<and> (spec_tagAt ''{{'' ''}}'' s r \<and> (\<forall>k<length a. \<forall>r'. \<not> spec_tagAt ''{{'' ''}}'' (drop k (a @ s)) r') \<longrightarrow>
          replaceAll printTagAt [] (a @ s) = a @ replaceAll printTagAt [] r)
    \<and> ((\<forall>k<length a. \<forall>r'. \<not> spec_tagAt ''{{'' ''}}'' (drop k a) r') \<longrightarrow> replaceAll printTagAt [] a = a)
    \<and> (spec_tagAt ''{%'' ''%}'' s r \<and> (\<forall>k<length a. \<forall>r'. \<not> spec_tagAt ''{%'' ''%}'' (drop k (a @ s)) r') \<longrightarrow>
          replaceAll directiveAt [] (a @ s) = a @ replaceAll directiveAt [] r)
    \<and> ((\<forall>k<length a. \<forall>r'. \<not> spec_tagAt ''{%'' ''%}'' (drop k a) r') \<longrightarrow> replaceAll directiveAt [] a = a)
    \<and> pa_rawHtml (parseTwigFile ''{% block workarea_content %} a {{ b }} c {% if x %} d {% endblock %}'')
         = Some ''a  c  d''
    \<and> pa_rawHtml (parseTwigFile ''{% block workarea_content %}a{% block x %}b{% endblock %}c{% endblock %}'')
         = Some ''ab''"
proof -
  note eq = parseTwigFile_fallback[OF assms]
  note f = extractFallbackContent_fields[of content "metaResult content"]
  note m = metaResult_fields[of content]
  have raw: "pa_rawHtml (parseTwigFile content) =
         map_option (\<lambda>body. trim (replaceAll directiveAt [] (replaceAll printTagAt [] body)))
           (firstMatch (blockAt ''workarea_content'') content)"
    unfolding eq using f m by (simp split: option.splits)
  have b: "buildRichTextContent (parseTwigFile content) = rawFallback (parseTwigFile content)"
    unfolding eq using f m by (intro fallback_readingOrder) simp_all
  have t: "substring raw 0 2000 = take 2000 raw" for raw
    using substring_take[of 2000 raw] by simp
  have b': "buildRichTextContent (parseTwigFile content) =
         (case pa_rawHtml (parseTwigFile content) of
            Some raw \<Rightarrow> if raw \<noteq> [] then [Paragraph [plainRun (take 2000 raw)]] else []
          | None \<Rightarrow> [])"
    unfolding b rawFallback_def t ..
  have base: "parseTwigFile content = extractFallbackContent content (metaResult content)
    \<and> pa_title (parseTwigFile content) = None
    \<and> pa_introText (parseTwigFile content) = None
    \<and> pa_tocItems (parseTwigFile content) = None
    \<and> pa_contentSections (parseTwigFile content) = None
    \<and> pa_conclusion (parseTwigFile content) = None"
    using eq f m by simp
  have r1: "spec_regionAt content n body \<and> (\<forall>k<n. \<forall>b. \<not> spec_regionAt content k b) \<longrightarrow>
          pa_rawHtml (parseTwigFile content) =
            Some (trim (replaceAll directiveAt [] (replaceAll printTagAt [] body)))"
    using region_first[of content n body] unfolding raw by auto
  have r2: "(\<forall>n b. \<not> spec_regionAt content n b) \<longrightarrow> pa_rawHtml (parseTwigFile content) = None"
    using region_none[of content] unfolding raw by auto
  have s1: "spec_tagAt ''{{'' ''}}'' s r \<and> (\<forall>k<length a. \<forall>r'. \<not> spec_tagAt ''{{'' ''}}'' (drop k (a @ s)) r') \<longrightarrow>
          replaceAll printTagAt [] (a @ s) = a @ replaceAll printTagAt [] r"
    using strip_step[of printTagAt "''{{''" "''}}''" s r a] printTagAt_iff by blast
  have s2: "(\<forall>k<length a. \<forall>r'. \<not> spec_tagAt ''{{'' ''}}'' (drop k a) r') \<longrightarrow> replaceAll printTagAt [] a = a"
    using strip_none[of printTagAt "''{{''" "''}}''" a] printTagAt_iff by blast
  have s3: "spec_tagAt ''{%'' ''%}'' s r \<and> (\<forall>k<length a. \<forall>r'. \<not> spec_tagAt ''{%'' ''%}'' (drop k (a @ s)) r') \<longrightarrow>
          replaceAll directiveAt [] (a @ s) = a @ replaceAll directiveAt [] r"
    using strip_step[of directiveAt "''{%''" "''%}''" s r a] directiveAt_iff by blast
  have s4: "(\<forall>k<length a. \<forall>r'. \<not> spec_tagAt ''{%'' ''%}'' (drop k a) r') \<longrightarrow> replaceAll directiveAt [] a = a"
    using strip_none[of directiveAt "''{%''" "''%}''" a] directiveAt_iff by blast
  have c1: "pa_rawHtml (parseTwigFile ''{% block workarea_content %} a {{ b }} c {% if x %} d {% endblock %}'')
         = Some ''a  c  d''"
    by code_simp
  have c2: "pa_rawHtml (parseTwigFile ''{% block workarea_content %}a{% block x %}b{% endblock %}c{% endblock %}'')
         = Some ''ab''"
    by code_simp
  from base raw b' r1 r2 s1 s2 s3 s4 c1 c2 show ?thesis by blast
qed

text \<open>
  The theorem at the second end-to-end scenario of the specification: the region
  \<^verbatim>\<open>hello world\<close> starts at index 0, \<^verbatim>\<open>rawHtml\<close> is \<^verbatim>\<open>hello world\<close> and the blocks are one
  Paragraph; at a text with one print tag and at a text with one directive, which are
  removed; at a text without tag, which is left as it is; and at a source without
  region, where \<^verbatim>\<open>rawHtml\<close> is not set.
\<close>

theorem raw_fallback_dispatch_witness:
  "\<not> sublist ''{% set article_data'' ''{% block workarea_content %}hello world{% endblock %}''
   \<and> \<not> sublist ''blog_macros.blog_content('' ''{% block workarea_content %}hello world{% endblock %}''
   \<and> spec_regionAt ''{% block workarea_content %}hello world{% endblock %}'' 0 ''hello world''
   \<and> pa_rawHtml (parseTwigFile ''{% block workarea_content %}hello world{% endblock %}'') = Some ''hello world''
   \<and> buildRichTextContent (parseTwigFile ''{% block workarea_content %}hello world{% endblock %}'')
       = [Paragraph [plainRun ''hello world'']]
   \<and> spec_tagAt ''{{'' ''}}'' ''{{ b }} c'' '' c''
   \<and> replaceAll printTagAt [] ('' a '' @ ''{{ b }} c'') = '' a  c''
   \<and> spec_tagAt ''{%'' ''%}'' ''{% x %}c'' ''c''
   \<and> replaceAll directiveAt [] (''a'' @ ''{% x %}c'') = ''ac''
   \<and> replaceAll printTagAt [] ''ab'' = ''ab''
   \<and> replaceAll directiveAt [] ''ab'' = ''ab''
   \<and> \<not> sublist ''{% set article_data'' ''hi''
   \<and> \<not> sublist ''blog_macros.blog_content('' ''hi''
   \<and> pa_rawHtml (parseTwigFile ''hi'') = None"
proof -
  let ?c = "''{% block workarea_content %}hello world{% endblock %}''"
  have h1: "\<not> sublist ''{% set article_data'' ?c"
    unfolding findFrom_None_iff[symmetric] by code_simp
  have h2: "\<not> sublist ''blog_macros.blog_content('' ?c"
    unfolding findFrom_None_iff[symmetric] by code_simp
  note th = raw_fallback_dispatch[OF h1 h2]
  have bl: "blockAt ''workarea_content'' (drop 0 ?c) = Some ''hello world''" by code_simp
  have reg: "spec_regionAt ?c 0 ''hello world''"
    using blockAt_region[of 0 ?c "''hello world''"] bl by simp
  have first: "\<forall>k<(0::nat). \<forall>b. \<not> spec_regionAt ?c k b" by simp
  have st: "trim (replaceAll directiveAt [] (replaceAll printTagAt [] ''hello world'')) = ''hello world''"
    by code_simp
  from th[of 0 "''hello world''"] reg first
  have "pa_rawHtml (parseTwigFile ?c) =
      Some (trim (replaceAll directiveAt [] (replaceAll printTagAt [] ''hello world'')))"
    by blast
  then have r: "pa_rawHtml (parseTwigFile ?c) = Some ''hello world''" unfolding st .
  from th have "buildRichTextContent (parseTwigFile ?c) =
         (case pa_rawHtml (parseTwigFile ?c) of
            Some raw \<Rightarrow> if raw \<noteq> [] then [Paragraph [plainRun (take 2000 raw)]] else []
          | None \<Rightarrow> [])"
    by blast
  then have b: "buildRichTextContent (parseTwigFile ?c) = [Paragraph [plainRun ''hello world'']]"
    unfolding r by simp
  have pt: "printTagAt ''{{ b }} c'' = Some '' c''" by code_simp
  then have tag: "spec_tagAt ''{{'' ''}}'' ''{{ b }} c'' '' c''" by (simp only: printTagAt_iff)
  have k0: "printTagAt (drop 0 ('' a '' @ ''{{ b }} c'')) = None" by code_simp
  have k1: "printTagAt (drop 1 ('' a '' @ ''{{ b }} c'')) = None" by code_simp
  have k2: "printTagAt (drop 2 ('' a '' @ ''{{ b }} c'')) = None" by code_simp
  have before: "\<forall>k<length '' a ''. \<forall>r'. \<not> spec_tagAt ''{{'' ''}}'' (drop k ('' a '' @ ''{{ b }} c'')) r'"
  proof (intro allI impI)
    fix k :: nat and r' assume "k < length '' a ''"
    then have "k = 0 \<or> k = 1 \<or> k = 2" by auto
    then have "printTagAt (drop k ('' a '' @ ''{{ b }} c'')) = None" using k0 k1 k2 by auto
    then show "\<not> spec_tagAt ''{{'' ''}}'' (drop k ('' a '' @ ''{{ b }} c'')) r'"
      using printTagAt_iff[of "drop k ('' a '' @ ''{{ b }} c'')" r'] by simp
  qed
  have rest: "replaceAll printTagAt [] '' c'' = '' c''" by code_simp
  from th[of _ _ "''{{ b }} c''" "'' c''" "'' a ''"] tag before
  have "replaceAll printTagAt [] ('' a '' @ ''{{ b }} c'') = '' a '' @ replaceAll printTagAt [] '' c''"
    by blast
  then have sr: "replaceAll printTagAt [] ('' a '' @ ''{{ b }} c'') = '' a  c''"
    unfolding rest by simp
  have dt: "directiveAt ''{% x %}c'' = Some ''c''" by code_simp
  then have dtag: "spec_tagAt ''{%'' ''%}'' ''{% x %}c'' ''c''" by (simp only: directiveAt_iff)
  have d0: "directiveAt (drop 0 (''a'' @ ''{% x %}c'')) = None" by code_simp
  have dbefore: "\<forall>k<length ''a''. \<forall>r'. \<not> spec_tagAt ''{%'' ''%}'' (drop k (''a'' @ ''{% x %}c'')) r'"
  proof (intro allI impI)
    fix k :: nat and r' assume "k < length ''a''"
    then have "k = 0" by auto
    then have "directiveAt (drop k (''a'' @ ''{% x %}c'')) = None" using d0 by auto
    then show "\<not> spec_tagAt ''{%'' ''%}'' (drop k (''a'' @ ''{% x %}c'')) r'"
      using directiveAt_iff[of "drop k (''a'' @ ''{% x %}c'')" r'] by simp
  qed
  have drest: "replaceAll directiveAt [] ''c'' = ''c''" by code_simp
  from th[of _ _ "''{% x %}c''" "''c''" "''a''"] dtag dbefore
  have "replaceAll directiveAt [] (''a'' @ ''{% x %}c'') = ''a'' @ replaceAll directiveAt [] ''c''"
    by blast
  then have dr: "replaceAll directiveAt [] (''a'' @ ''{% x %}c'') = ''ac''"
    unfolding drest by simp
  have p0: "printTagAt (drop 0 ''ab'') = None" by code_simp
  have p1: "printTagAt (drop 1 ''ab'') = None" by code_simp
  have e0: "directiveAt (drop 0 ''ab'') = None" by code_simp
  have e1: "directiveAt (drop 1 ''ab'') = None" by code_simp
  have pnone: "\<forall>k<length ''ab''. \<forall>r'. \<not> spec_tagAt ''{{'' ''}}'' (drop k ''ab'') r'"
  proof (intro allI impI)
    fix k :: nat and r' assume "k < length ''ab''"
    then have "k = 0 \<or> k = 1" by auto
    then have "printTagAt (drop k ''ab'') = None" using p0 p1 by auto
    then show "\<not> spec_tagAt ''{{'' ''}}'' (drop k ''ab'') r'"
      using printTagAt_iff[of "drop k ''ab''" r'] by simp
  qed
  have dnone: "\<forall>k<length ''ab''. \<forall>r'. \<not> spec_tagAt ''{%'' ''%}'' (drop k ''ab'') r'"
  proof (intro allI impI)
    fix k :: nat and r' assume "k < length ''ab''"
    then have "k = 0 \<or> k = 1" by auto
    then have "directiveAt (drop k ''ab'') = None" using e0 e1 by auto
    then show "\<not> spec_tagAt ''{%'' ''%}'' (drop k ''ab'') r'"
      using directiveAt_iff[of "drop k ''ab''" r'] by simp
  qed
  from th[of _ _ _ _ "''ab''"] pnone have pn: "replaceAll printTagAt [] ''ab'' = ''ab''" by blast
  from th[of _ _ _ _ "''ab''"] dnone have dn: "replaceAll directiveAt [] ''ab'' = ''ab''" by blast
  have g1: "\<not> sublist ''{% set article_data'' ''hi''"
    unfolding findFrom_None_iff[symmetric] by code_simp
  have g2: "\<not> sublist ''blog_macros.blog_content('' ''hi''"
    unfolding findFrom_None_iff[symmetric] by code_simp
  have b0: "blockAt ''workarea_content'' (drop 0 ''hi'') = None" by code_simp
  have b1: "blockAt ''workarea_content'' (drop 1 ''hi'') = None" by code_simp
  have b2: "blockAt ''workarea_content'' (drop 2 ''hi'') = None" by code_simp
  have noreg: "\<forall>n b. \<not> spec_regionAt ''hi'' n b"
  proof (intro allI)
    fix n :: nat and bd
    show "\<not> spec_regionAt ''hi'' n bd"
    proof (cases "n \<le> length ''hi''")
      case True
      then have "n = 0 \<or> n = 1 \<or> n = 2" by auto
      then have "blockAt ''workarea_content'' (drop n ''hi'') = None" using b0 b1 b2 by auto
      then show ?thesis using blockAt_region[OF True, of bd] by simp
    next
      case False
      then show ?thesis by (simp add: spec_regionAt_def)
    qed
  qed
  from raw_fallback_dispatch[OF g1 g2] noreg have rn: "pa_rawHtml (parseTwigFile ''hi'') = None"
    by blast
  from h1 h2 reg r b tag sr dtag dr pn dn g1 g2 rn show ?thesis by blast
qed

text \<open>
  Claim C3 as stated fails: \<^verbatim>\<open>extractFallbackContent\<close> does not truncate. For a region
  of 2001 letters \<^verbatim>\<open>rawHtml\<close> has all 2001 of them; the bound of 2000 characters is
  applied by \<open>buildRichTextContent\<close>, to the text of the Paragraph. Nor is every
  directive removed: one that spans a line break stays in \<^verbatim>\<open>rawHtml\<close>.
\<close>

theorem raw_html_not_truncated_counterexample:
  "pa_rawHtml (parseTwigFile (longRegionSource 2001)) = Some (replicate 2001 CHR ''a'')
   \<and> length (replicate 2001 CHR ''a'') = 2001
   \<and> buildRichTextContent (parseTwigFile (longRegionSource 2001))
     = [Paragraph [plainRun (replicate 2000 CHR ''a'')]]
   \<and> pa_rawHtml (parseTwigFile (''{% block workarea_content %}a{% if x'' @ [CHR 0x0A] @ ''%}b{% endblock %}''))
     = Some (''a{% if x'' @ [CHR 0x0A] @ ''%}b'')"
proof -
  note r = longRegion_rawHtml[of 2001]
  have m: "pa_introText (parseTwigFile (longRegionSource 2001)) = None
    \<and> pa_contentSections (parseTwigFile (longRegionSource 2001)) = None
    \<and> pa_conclusion (parseTwigFile (longRegionSource 2001)) = None"
    using extractFallbackContent_fields[of "longRegionSource 2001" "metaResult (longRegionSource 2001)"]
      metaResult_fields[of "longRegionSource 2001"]
    by (simp add: parseTwigFile_fallback[OF longRegion_no_set longRegion_no_macro])
  have ne: "replicate 2001 CHR ''a'' \<noteq> []" by simp
  have t: "substring (replicate 2001 CHR ''a'') 0 2000 = replicate 2000 CHR ''a''"
    by (simp add: substring_take)
  have bb: "buildRichTextContent (parseTwigFile (longRegionSource 2001))
     = [Paragraph [plainRun (replicate 2000 CHR ''a'')]]"
    using m by (simp add: fallback_readingOrder rawFallback_def r t)
  have ml: "pa_rawHtml (parseTwigFile (''{% block workarea_content %}a{% if x'' @ [CHR 0x0A] @ ''%}b{% endblock %}''))
     = Some (''a{% if x'' @ [CHR 0x0A] @ ''%}b'')"
    by code_simp
  from r bb ml show ?thesis by simp
qed

section \<open>The arguments of the call and the search span of the table of contents\<close>

lemma charAt_mid: "charAt (pre @ x # t) (int (length pre)) = Some x"
  by (simp add: charAt_def)

lemma charAt_before:
  "charAt (pre @ t) (int (length pre) - 1) = (if pre = [] then None else Some (last pre))"
proof (cases "pre = []")
  case True
  then show ?thesis by (simp add: charAt_def)
next
  case False
  then have l: "0 < length pre" by simp
  have n: "nat (int (length pre) - 1) = length pre - 1" by simp
  have "(pre @ t) ! (length pre - 1) = last pre"
    using False l by (simp add: nth_append last_conv_nth)
  then show ?thesis using False l by (simp add: charAt_def n)
qed

lemma scanLoop_through:
  "opn \<noteq> cls \<Longrightarrow> \<forall>n<length xs. 0 < d + bal opn cls (take n xs) \<Longrightarrow>
   scanLoop opn cls (pre @ xs @ post) (int (length pre)) d
     = scanLoop opn cls (pre @ xs @ post) (int (length pre + length xs)) (d + bal opn cls xs)"
proof (induction xs arbitrary: pre d)
  case Nil
  show ?case by simp
next
  case (Cons x xs)
  define dn where "dn = d + (if x = opn then 1 else 0) - (if x = cls then 1 else 0)"
  from Cons.prems(2) have d0: "0 < d" by fastforce
  have ch: "charAt (pre @ (x # xs) @ post) (int (length pre)) = Some x"
    using charAt_mid[of pre x "xs @ post"] by simp
  have lt: "int (length pre) < int (length (pre @ (x # xs) @ post))" by simp
  have step: "scanLoop opn cls (pre @ (x # xs) @ post) (int (length pre)) d
      = scanLoop opn cls (pre @ (x # xs) @ post) (int (length pre) + 1) dn"
    using lt d0 ch Cons.prems(1)
    by (subst scanLoop.simps) (auto simp: dn_def)
  have pre': "\<forall>n<length xs. 0 < dn + bal opn cls (take n xs)"
  proof (intro allI impI)
    fix n assume "n < length xs"
    then have "Suc n < length (x # xs)" by simp
    with Cons.prems(2) have "0 < d + bal opn cls (take (Suc n) (x # xs))" by blast
    then show "0 < dn + bal opn cls (take n xs)" by (simp add: bal_Cons dn_def)
  qed
  have "scanLoop opn cls ((pre @ [x]) @ xs @ post) (int (length (pre @ [x]))) dn
      = scanLoop opn cls ((pre @ [x]) @ xs @ post) (int (length (pre @ [x]) + length xs)) (dn + bal opn cls xs)"
    by (rule Cons.IH[OF Cons.prems(1) pre'])
  then have "scanLoop opn cls (pre @ (x # xs) @ post) (int (length pre) + 1) dn
      = scanLoop opn cls (pre @ (x # xs) @ post) (int (length pre + length (x # xs))) (d + bal opn cls (x # xs))"
    by (simp add: bal_Cons dn_def algebra_simps)
  with step show ?case by simp
qed

lemma scan_balanced:
  assumes "opn \<noteq> cls" and "rawBalanced opn cls xs"
  shows "scanLoop opn cls (pre @ opn # xs @ cls # post) (int (length pre) + 1) 1
     = (int (length pre + length xs) + 2, 0)"
proof -
  let ?s = "pre @ opn # xs @ cls # post"
  have s: "?s = (pre @ [opn]) @ xs @ (cls # post)" by simp
  have pos: "\<forall>n<length xs. 0 < 1 + bal opn cls (take n xs)"
  proof (intro allI impI)
    fix n assume "n < length xs"
    with assms(2) have "0 \<le> bal opn cls (take n xs)" by (simp add: rawBalanced_def list_all_iff)
    then show "0 < 1 + bal opn cls (take n xs)" by simp
  qed
  have b0: "bal opn cls xs = 0" using assms(2) by (simp add: rawBalanced_def)
  have "scanLoop opn cls ((pre @ [opn]) @ xs @ (cls # post)) (int (length (pre @ [opn]))) 1
      = scanLoop opn cls ((pre @ [opn]) @ xs @ (cls # post)) (int (length (pre @ [opn]) + length xs)) (1 + bal opn cls xs)"
    by (rule scanLoop_through[OF assms(1) pos])
  then have a: "scanLoop opn cls ?s (int (length pre) + 1) 1
      = scanLoop opn cls ?s (int (length pre + length xs) + 1) 1"
    using b0 by (simp add: add.commute add.left_commute)
  have ch: "charAt ?s (int (length pre + length xs) + 1) = Some cls"
    using charAt_mid[of "pre @ opn # xs" cls post] by (simp add: add.commute add.left_commute)
  have lt: "int (length pre + length xs) + 1 < int (length ?s)" by simp
  have "scanLoop opn cls ?s (int (length pre + length xs) + 1) 1
      = scanLoop opn cls ?s (int (length pre + length xs) + 1 + 1) 0"
    using lt ch assms(1) by (subst scanLoop.simps) auto
  also have "\<dots> = (int (length pre + length xs) + 1 + 1, 0)"
    by (subst scanLoop.simps) simp
  finally show ?thesis using a by simp
qed

lemma substring_middle:
  "substring (a @ b @ c) (int (length a)) (int (length a + length b)) = b"
  by (simp add: substring_slice)

lemma findFrom_char: "c \<notin> set a \<Longrightarrow> findFrom [c] (a @ c # t) = Some (length a)"
  by (induction a) auto

lemma macroArguments_args:
  assumes "k \<le> length pre" and "CHR ''('' \<notin> set (drop k pre)"
    and "rawBalanced CHR ''('' CHR '')'' args"
  shows "macroArguments (pre @ ''('' @ args @ '')'' @ rest) (int k) = args"
proof -
  let ?c = "pre @ ''('' @ args @ '')'' @ rest"
  have ck: "clampIdx ?c (int k) = k" using assms(1) by (simp add: clampIdx_def)
  have dr: "drop k ?c = drop k pre @ CHR ''('' # args @ CHR '')'' # rest" using assms(1) by simp
  have ff: "findFrom ''('' (drop k ?c) = Some (length (drop k pre))"
    unfolding dr by (rule findFrom_char[OF assms(2)])
  have ix: "indexOfFrom ?c ''('' (int k) = int (length pre)"
    unfolding indexOfFrom_def ck ff using assms(1) by simp
  have sc: "scanLoop CHR ''('' CHR '')'' ?c (int (length pre) + 1) 1 = (int (length pre + length args) + 2, 0)"
    using scan_balanced[OF _ assms(3), of pre rest] by simp
  have "substring ?c (int (length pre) + 1) (int (length pre + length args) + 2 - 1) = args"
    using substring_middle[of "pre @ ''(''" args "'')'' @ rest"] by (simp add: add.commute add.left_commute)
  then show ?thesis
    unfolding macroArguments_def ix Let_def sc by simp
qed

lemma skipStrings_done: "skipStrings s i 4 b = i"
  by (subst skipStrings.simps) simp

lemma skipStrings_count:
  "BS \<notin> set (pre @ xs) \<Longrightarrow> \<forall>j<length xs. (q + count_list (take j xs) SQ) div 2 < 4 \<Longrightarrow>
   skipStrings (pre @ xs @ post) (int (length pre)) (q div 2) (odd q)
     = skipStrings (pre @ xs @ post) (int (length pre + length xs))
         ((q + count_list xs SQ) div 2) (odd (q + count_list xs SQ))"
proof (induction xs arbitrary: pre q)
  case Nil
  show ?case by simp
next
  case (Cons x xs)
  let ?s = "pre @ (x # xs) @ post"
  define qn where "qn = q + (if x = SQ then 1 else 0)"
  from Cons.prems(2) have q0: "q div 2 < 4" by fastforce
  have ch: "charAt ?s (int (length pre)) = Some x"
    using charAt_mid[of pre x "xs @ post"] by simp
  have nb: "int (length pre) = 0 \<or> charAt ?s (int (length pre) - 1) \<noteq> Some BS"
  proof (cases "pre = []")
    case True
    then show ?thesis by simp
  next
    case False
    then have "last pre \<in> set pre" by simp
    with Cons.prems(1) have "last pre \<noteq> BS" by auto
    then show ?thesis using charAt_before[of pre "(x # xs) @ post"] False by simp
  qed
  have lt: "int (length pre) < int (length ?s)" by simp
  have cnt: "(if odd q then q div 2 + 1 else q div 2) = (q + 1) div 2" by presburger
  have step: "skipStrings ?s (int (length pre)) (q div 2) (odd q)
      = skipStrings ?s (int (length pre) + 1) (qn div 2) (odd qn)"
  proof (cases "x = SQ")
    case True
    then show ?thesis using lt q0 ch nb cnt
      by (subst skipStrings.simps) (auto simp: qn_def)
  next
    case False
    then show ?thesis using lt q0 ch
      by (subst skipStrings.simps) (auto simp: qn_def)
  qed
  have pre': "\<forall>j<length xs. (qn + count_list (take j xs) SQ) div 2 < 4"
  proof (intro allI impI)
    fix j assume "j < length xs"
    then have "Suc j < length (x # xs)" by simp
    with Cons.prems(2) have "(q + count_list (take (Suc j) (x # xs)) SQ) div 2 < 4" by blast
    then show "(qn + count_list (take j xs) SQ) div 2 < 4"
      by (cases "x = SQ") (simp_all add: qn_def)
  qed
  have bs: "BS \<notin> set ((pre @ [x]) @ xs)" using Cons.prems(1) by simp
  have "skipStrings ((pre @ [x]) @ xs @ post) (int (length (pre @ [x]))) (qn div 2) (odd qn)
     = skipStrings ((pre @ [x]) @ xs @ post) (int (length (pre @ [x]) + length xs))
         ((qn + count_list xs SQ) div 2) (odd (qn + count_list xs SQ))"
    by (rule Cons.IH[OF bs pre'])
  then have "skipStrings ?s (int (length pre) + 1) (qn div 2) (odd qn)
     = skipStrings ?s (int (length pre + length (x # xs)))
         ((q + count_list (x # xs) SQ) div 2) (odd (q + count_list (x # xs) SQ))"
    by (simp add: qn_def add.commute add.left_commute)
  with step show ?case by simp
qed

lemma count_take_last:
  assumes "a \<noteq> []" and "last a = c" and "j < length a"
  shows "count_list (take j a) c < count_list a c"
proof -
  from assms(1,2) obtain b where a: "a = b @ [c]" by (metis append_butlast_last_id)
  with assms(3) have j: "j \<le> length b" by simp
  have "take j a = take j b" using a j by simp
  moreover have "count_list (take j b) c \<le> count_list b c"
    by (metis append_take_drop_id count_list_append le_add1)
  ultimately show ?thesis using a by simp
qed

lemma skipStrings_four:
  assumes "BS \<notin> set a" and "count_list a SQ = 8" and "last a = SQ"
  shows "skipStrings (a @ post) 0 0 False = int (length a)"
proof -
  from assms(2) have ne: "a \<noteq> []" by auto
  have pre: "\<forall>j<length a. (0 + count_list (take j a) SQ) div 2 < 4"
  proof (intro allI impI)
    fix j assume "j < length a"
    from count_take_last[OF ne assms(3) this] assms(2) have "count_list (take j a) SQ < 8" by simp
    then show "(0 + count_list (take j a) SQ) div 2 < 4" by simp
  qed
  have bs: "BS \<notin> set ([] @ a)" using assms(1) by simp
  have "skipStrings ([] @ a @ post) (int (length ([]::string))) (0 div 2) (odd (0::nat))
     = skipStrings ([] @ a @ post) (int (length ([]::string) + length a))
         ((0 + count_list a SQ) div 2) (odd (0 + count_list a SQ))"
    by (rule skipStrings_count[OF bs pre])
  then show ?thesis using assms(2) by (simp add: skipStrings_done)
qed

lemma skipToBracket_gap:
  "CHR ''['' \<notin> set g \<Longrightarrow>
   skipToBracket (pre @ g @ CHR ''['' # t) (int (length pre)) = int (length pre + length g)"
proof (induction g arbitrary: pre)
  case Nil
  have "charAt (pre @ CHR ''['' # t) (int (length pre)) = Some CHR ''[''" by (rule charAt_mid)
  then show ?case by (subst skipToBracket.simps) simp
next
  case (Cons x g)
  let ?s = "pre @ (x # g) @ CHR ''['' # t"
  have ch: "charAt ?s (int (length pre)) = Some x"
    using charAt_mid[of pre x "g @ CHR ''['' # t"] by simp
  have "skipToBracket ?s (int (length pre)) = skipToBracket ?s (int (length pre) + 1)"
    using ch Cons.prems by (subst skipToBracket.simps) auto
  moreover have "skipToBracket ((pre @ [x]) @ g @ CHR ''['' # t) (int (length (pre @ [x])))
      = int (length (pre @ [x]) + length g)"
    using Cons.IH[of "pre @ [x]"] Cons.prems by simp
  ultimately show ?case by (simp add: add.commute add.left_commute)
qed

lemma drop_length_app: "drop (length x) (x @ y) = y"
  by simp

lemma afterSections_span:
  assumes "BS \<notin> set a" and "count_list a SQ = 8" and "last a = SQ"
    and "CHR ''['' \<notin> set g" and "rawBalanced CHR ''['' CHR '']'' body"
  shows "afterSections (a @ g @ ''['' @ body @ '']'' @ rest) = rest"
proof -
  let ?m = "a @ g @ ''['' @ body @ '']'' @ rest"
  have s4: "skipStrings ?m 0 0 False = int (length a)"
    by (rule skipStrings_four[OF assms(1,2,3)])
  have sb: "skipToBracket ?m (int (length a)) = int (length a + length g)"
    using skipToBracket_gap[OF assms(4), of a "body @ '']'' @ rest"] by simp
  have sc: "scanLoop CHR ''['' CHR '']'' ?m (int (length (a @ g)) + 1) 1
      = (int (length (a @ g) + length body) + 2, 0)"
    using scan_balanced[OF _ assms(5), of "a @ g" rest] by simp
  have e: "findContentSectionsEnd ?m = int (length a + length g + length body) + 2"
    unfolding findContentSectionsEnd_def s4 sb Let_def using sc by simp
  have n: "clampIdx ?m (int (length a + length g + length body) + 2)
      = length (a @ g @ ''['' @ body @ '']'')"
    by (simp add: clampIdx_def)
  have m: "?m = (a @ g @ ''['' @ body @ '']'') @ rest" by simp
  have "drop (length (a @ g @ ''['' @ body @ '']'')) ?m = rest"
    by (subst m) (rule drop_length_app)
  then have "substringFrom ?m (int (length a + length g + length body) + 2) = rest"
    unfolding substringFrom_def n .
  then show ?thesis
    unfolding afterSections_def e Let_def by simp
qed

lemma skipToBracket_none:
  "CHR ''['' \<notin> set (drop (nat i) m) \<Longrightarrow> 0 \<le> i \<Longrightarrow> int (length m) \<le> skipToBracket m i"
proof (induction m i rule: skipToBracket.induct)
  case (1 m i)
  show ?case
  proof (cases "i < int (length m)")
    case True
    with 1(3) have l: "nat i < length m" by simp
    then have "drop (nat i) m = m ! nat i # drop (Suc (nat i)) m" by (rule Cons_nth_drop_Suc[symmetric])
    with 1(2) have ne: "m ! nat i \<noteq> CHR ''[''" and rest: "CHR ''['' \<notin> set (drop (Suc (nat i)) m)"
      by auto
    from ne have "charAt m i \<noteq> Some CHR ''[''" using True 1(3) by (simp add: charAt_def)
    with True have c: "i < int (length m) \<and> charAt m i \<noteq> Some CHR ''[''" by simp
    have s: "nat (i + 1) = Suc (nat i)" using 1(3) by simp
    have "int (length m) \<le> skipToBracket m (i + 1)"
      using 1(1)[OF c] rest 1(3) unfolding s by simp
    then show ?thesis using c by (subst skipToBracket.simps) simp
  next
    case False
    then show ?thesis by (subst skipToBracket.simps) simp
  qed
qed

lemma afterSections_none:
  assumes "int (length m) \<le> skipToBracket m (skipStrings m 0 0 False)"
  shows "afterSections m = m"
  using assms by (simp add: afterSections_def findContentSectionsEnd_def Let_def)

lemma afterSections_no_bracket:
  assumes "CHR ''['' \<notin> set m"
  shows "afterSections m = m"
proof -
  have s: "0 \<le> skipStrings m 0 0 False" using skipStrings_ge[of 0 m 0 False] by simp
  have "CHR ''['' \<notin> set (drop (nat (skipStrings m 0 0 False)) m)"
    using assms by (meson in_set_dropD)
  from skipToBracket_none[OF this s] show ?thesis by (rule afterSections_none)
qed

lemma skipStrings_end: "int (length s) \<le> i \<Longrightarrow> skipStrings s i n b = i"
  by (subst skipStrings.simps) simp

lemma skipToBracket_end: "int (length s) \<le> i \<Longrightarrow> skipToBracket s i = i"
  by (subst skipToBracket.simps) simp

lemma count_take_le: "count_list (take j a) c \<le> count_list a c"
  by (metis append_take_drop_id count_list_append le_add1)

lemma afterSections_few_strings:
  assumes "BS \<notin> set m" and "count_list m SQ < 8"
  shows "afterSections m = m"
proof -
  have pre: "\<forall>j<length m. (0 + count_list (take j m) SQ) div 2 < 4"
  proof (intro allI impI)
    fix j
    have "count_list (take j m) SQ \<le> count_list m SQ" by (rule count_take_le)
    with assms(2) show "(0 + count_list (take j m) SQ) div 2 < 4" by simp
  qed
  have bs: "BS \<notin> set ([] @ m)" using assms(1) by simp
  have "skipStrings ([] @ m @ []) (int (length ([]::string))) (0 div 2) (odd (0::nat))
     = skipStrings ([] @ m @ []) (int (length ([]::string) + length m))
         ((0 + count_list m SQ) div 2) (odd (0 + count_list m SQ))"
    by (rule skipStrings_count[OF bs pre])
  then have "skipStrings m 0 0 False = int (length m)"
    by (simp add: skipStrings_end)
  then have "skipToBracket m (skipStrings m 0 0 False) = int (length m)"
    by (simp add: skipToBracket_end)
  then show ?thesis by (simp add: afterSections_none)
qed

lemma afterSections_no_array:
  assumes "BS \<notin> set a" and "count_list a SQ = 8" and "last a = SQ" and "CHR ''['' \<notin> set g"
  shows "afterSections (a @ g) = a @ g"
proof -
  have s4: "skipStrings (a @ g) 0 0 False = int (length a)"
    by (rule skipStrings_four[OF assms(1,2,3)])
  have "CHR ''['' \<notin> set (drop (nat (int (length a))) (a @ g))" using assms(4) by simp
  then have "int (length (a @ g)) \<le> skipToBracket (a @ g) (int (length a))"
    by (rule skipToBracket_none) simp
  then show ?thesis unfolding s4[symmetric] by (rule afterSections_none)
qed

text \<open>
  Claim C4, as amended. In the positional form the items of the table of contents are
  the pairs in the order title, href of the search span; when there is none, the pairs
  in the order href, title of that span; when there is still none, the pairs in the
  order title, href of all the arguments of the call whose href starts with \<^verbatim>\<open>#\<close>. The
  arguments are the text between the parenthesis that opens the call and the one that
  closes it, not the whole source. The search span is what follows the first bracketed
  array after the fourth quoted string of the arguments (the array of sections), and
  all the arguments when they have fewer than four quoted strings or no bracket after
  the fourth. In the named-object form the items are
  the pairs in the order href, title of the object literal, and no other order is tried.
  An object written with its two keys in the order of the expression is matched with
  the value of each key as the capture of that key, and each capture goes to the field
  of its key.
\<close>

theorem toc_strategies_in_order:
  "pa_tocItems (parseMacroCallPattern content k r) = Some (macroTocItems (macroArguments content k))
   \<and> macroTocItems macroArgs =
     (if allMatches (pairAt ''title'' ''href'') (afterSections macroArgs) \<noteq> []
      then map titleHref (allMatches (pairAt ''title'' ''href'') (afterSections macroArgs))
      else if allMatches (pairAt ''href'' ''title'') (afterSections macroArgs) \<noteq> []
      then map hrefTitle (allMatches (pairAt ''href'' ''title'') (afterSections macroArgs))
      else map titleHref (filter (\<lambda>p. startsWith (snd p) ''#'')
                           (allMatches (pairAt ''title'' ''href'') macroArgs)))
   \<and> pa_tocItems (parseArticleDataPattern content k r) =
       Some (map hrefTitle (allMatches (pairAt ''href'' ''title'') (articleHash content k)))
   \<and> (list_all is_space w1 \<and> list_all is_space w2 \<and> list_all is_space w3 \<and> list_all is_space w4
       \<and> list_all is_space w5 \<and> list_all is_space w6 \<and> list_all is_space w7 \<and> list_all is_space w8
       \<and> SQ \<notin> set v1 \<and> SQ \<notin> set v2 \<longrightarrow>
       pairAt k1 k2
           (CHR ''{'' # w1 @ SQ # k1 @ SQ # w2 @ CHR '':'' # w3 @ SQ # v1 @ SQ # w4 @ CHR '','' #
            w5 @ SQ # k2 @ SQ # w6 @ CHR '':'' # w7 @ SQ # v2 @ SQ # w8 @ CHR ''}'' # rest)
         = Some ((v1, v2), rest))
   \<and> toc_href (hrefTitle (h, t)) = h \<and> toc_title (hrefTitle (h, t)) = t
   \<and> toc_href (titleHref (t, h)) = h \<and> toc_title (titleHref (t, h)) = t
   \<and> (j \<le> length pre \<and> CHR ''('' \<notin> set (drop j pre) \<and> rawBalanced CHR ''('' CHR '')'' args \<longrightarrow>
       macroArguments (pre @ ''('' @ args @ '')'' @ post) (int j) = args)
   \<and> (BS \<notin> set a \<and> count_list a SQ = 8 \<and> last a = SQ \<and> CHR ''['' \<notin> set g
       \<and> rawBalanced CHR ''['' CHR '']'' body \<longrightarrow>
       afterSections (a @ g @ ''['' @ body @ '']'' @ after) = after)
   \<and> (BS \<notin> set a \<and> count_list a SQ = 8 \<and> last a = SQ \<and> CHR ''['' \<notin> set g \<longrightarrow>
       afterSections (a @ g) = a @ g)
   \<and> (BS \<notin> set m \<and> count_list m SQ < 8 \<longrightarrow> afterSections m = m)
   \<and> (CHR ''['' \<notin> set m \<longrightarrow> afterSections m = m)"
proof -
  have p: "list_all is_space w1 \<and> list_all is_space w2 \<and> list_all is_space w3 \<and> list_all is_space w4
       \<and> list_all is_space w5 \<and> list_all is_space w6 \<and> list_all is_space w7 \<and> list_all is_space w8
       \<and> SQ \<notin> set v1 \<and> SQ \<notin> set v2 \<longrightarrow>
       pairAt k1 k2
           (CHR ''{'' # w1 @ SQ # k1 @ SQ # w2 @ CHR '':'' # w3 @ SQ # v1 @ SQ # w4 @ CHR '','' #
            w5 @ SQ # k2 @ SQ # w6 @ CHR '':'' # w7 @ SQ # v2 @ SQ # w8 @ CHR ''}'' # rest)
         = Some ((v1, v2), rest)"
    using pairAt_object[of w1 w2 w3 w4 w5 w6 w7 w8 v1 v2 k1 k2 rest] by blast
  have f: "toc_href (hrefTitle (h, t)) = h \<and> toc_title (hrefTitle (h, t)) = t
   \<and> toc_href (titleHref (t, h)) = h \<and> toc_title (titleHref (t, h)) = t"
    by (simp add: hrefTitle_def titleHref_def)
  have ma: "j \<le> length pre \<and> CHR ''('' \<notin> set (drop j pre) \<and> rawBalanced CHR ''('' CHR '')'' args \<longrightarrow>
       macroArguments (pre @ ''('' @ args @ '')'' @ post) (int j) = args"
    using macroArguments_args[of j pre args post] by blast
  have as: "BS \<notin> set a \<and> count_list a SQ = 8 \<and> last a = SQ \<and> CHR ''['' \<notin> set g
       \<and> rawBalanced CHR ''['' CHR '']'' body \<longrightarrow>
       afterSections (a @ g @ ''['' @ body @ '']'' @ after) = after"
    using afterSections_span[of a g body after] by blast
  have na: "CHR ''['' \<notin> set m \<longrightarrow> afterSections m = m"
    using afterSections_no_bracket[of m] by blast
  have nb: "BS \<notin> set a \<and> count_list a SQ = 8 \<and> last a = SQ \<and> CHR ''['' \<notin> set g \<longrightarrow>
       afterSections (a @ g) = a @ g"
    using afterSections_no_array[of a g] by blast
  have nf: "BS \<notin> set m \<and> count_list m SQ < 8 \<longrightarrow> afterSections m = m"
    using afterSections_few_strings[of m] by blast
  from macro_tocItems[of content k r] macroTocItems_cascade[of macroArgs] named_tocItems[of content k r] p f ma as na nb nf
  show ?thesis by blast
qed

text \<open>
  The theorem at arguments whose only objects are in the order href, title: the
  first strategy finds nothing, the second gives the item with its href and its title
  in their fields; and the same through \<open>parseTwigFile\<close>. Then at a call whose array of
  sections holds a pair in the order title, href and which is followed, after the call,
  by another such pair: the arguments end at the parenthesis that closes the call, the
  span starts after the array of sections, and the item is the one of the second array.
  Last, a call with pairs in the array of sections only: the third strategy finds them
  in the arguments and keeps the one whose href starts with \<^verbatim>\<open>#\<close>.
\<close>

theorem toc_strategies_in_order_witness:
  "allMatches (pairAt ''title'' ''href'') (afterSections ''[ {'href': '#a', 'title': 'H'} ]'') = []
   \<and> allMatches (pairAt ''href'' ''title'') (afterSections ''[ {'href': '#a', 'title': 'H'} ]'') = [(''#a'', ''H'')]
   \<and> macroTocItems ''[ {'href': '#a', 'title': 'H'} ]'' = [\<lparr> toc_href = ''#a'', toc_title = ''H'' \<rparr>]
   \<and> pa_tocItems (parseTwigFile ''{{ blog_macros.blog_content('T', asset('i.png'), 'alt', 'intro', [ {'id': 'a', 'heading': 'H'} ], [ {'href': '#a', 'title': 'H'} ], null) }}'')
       = Some [\<lparr> toc_href = ''#a'', toc_title = ''H'' \<rparr>]
   \<and> macroArguments ''{{ blog_macros.blog_content('T', asset('i.png'), 'alt', 'intro', [ {'title': 'S', 'href': '#p'} ], [ {'href': '#a', 'title': 'H'} ], null) }} ({'title': 'X', 'href': '#x'})'' 3
       = '''T', asset('i.png'), 'alt', 'intro', [ {'title': 'S', 'href': '#p'} ], [ {'href': '#a', 'title': 'H'} ], null''
   \<and> afterSections '''T', asset('i.png'), 'alt', 'intro', [ {'title': 'S', 'href': '#p'} ], [ {'href': '#a', 'title': 'H'} ], null''
       = '', [ {'href': '#a', 'title': 'H'} ], null''
   \<and> allMatches (pairAt ''title'' ''href'') '''T', asset('i.png'), 'alt', 'intro', [ {'title': 'S', 'href': '#p'} ], [ {'href': '#a', 'title': 'H'} ], null''
       = [(''S'', ''#p'')]
   \<and> macroTocItems '''T', asset('i.png'), 'alt', 'intro', [ {'title': 'S', 'href': '#p'} ], [ {'href': '#a', 'title': 'H'} ], null''
       = [\<lparr> toc_href = ''#a'', toc_title = ''H'' \<rparr>]
   \<and> pa_tocItems (parseTwigFile ''{{ blog_macros.blog_content('T', asset('i.png'), 'alt', 'intro', [ {'title': 'S', 'href': '#p'} ], [ {'href': '#a', 'title': 'H'} ], null) }} ({'title': 'X', 'href': '#x'})'')
       = Some [\<lparr> toc_href = ''#a'', toc_title = ''H'' \<rparr>]
   \<and> pa_tocItems (parseTwigFile ''{{ blog_macros.blog_content('T', asset('i.png'), 'alt', 'intro', [ {'title': 'S', 'href': '#p'}, {'title': 'U', 'href': 'q'} ], null) }}'')
       = Some [\<lparr> toc_href = ''#p'', toc_title = ''S'' \<rparr>]"
proof -
  let ?s = "''[ {'href': '#a', 'title': 'H'} ]''"
  let ?a = "'''T', asset('i.png'), 'alt', 'intro'' @ [SQ]"
  let ?g = "'', ''"
  let ?body = "'' {'title': 'S', 'href': '#p'} ''"
  let ?tl = "'', [ {'href': '#a', 'title': 'H'} ], null''"
  let ?pre = "''{{ blog_macros.blog_content''"
  let ?args = "?a @ ?g @ ''['' @ ?body @ '']'' @ ?tl"
  let ?post = "'' }} ({'title': 'X', 'href': '#x'})''"
  have h1: "allMatches (pairAt ''title'' ''href'') (afterSections ?s) = []" by code_simp
  have h2: "allMatches (pairAt ''href'' ''title'') (afterSections ?s) = [(''#a'', ''H'')]" by code_simp
  have "macroTocItems ?s =
     (if allMatches (pairAt ''title'' ''href'') (afterSections ?s) \<noteq> []
      then map titleHref (allMatches (pairAt ''title'' ''href'') (afterSections ?s))
      else if allMatches (pairAt ''href'' ''title'') (afterSections ?s) \<noteq> []
      then map hrefTitle (allMatches (pairAt ''href'' ''title'') (afterSections ?s))
      else map titleHref (filter (\<lambda>p. startsWith (snd p) ''#'')
                           (allMatches (pairAt ''title'' ''href'') ?s)))"
    by (rule toc_strategies_in_order[where macroArgs = ?s, THEN conjunct2, THEN conjunct1])
  then have r: "macroTocItems ?s = [\<lparr> toc_href = ''#a'', toc_title = ''H'' \<rparr>]"
    unfolding h1 h2 by (simp add: hrefTitle_def)
  have e: "pa_tocItems (parseTwigFile ''{{ blog_macros.blog_content('T', asset('i.png'), 'alt', 'intro', [ {'id': 'a', 'heading': 'H'} ], [ {'href': '#a', 'title': 'H'} ], null) }}'')
       = Some [\<lparr> toc_href = ''#a'', toc_title = ''H'' \<rparr>]"
    by code_simp
  have b1: "rawBalanced CHR ''('' CHR '')'' ?args" by code_simp
  have b2: "rawBalanced CHR ''['' CHR '']'' ?body" by code_simp
  have c1: "(3::nat) \<le> length ?pre \<and> CHR ''('' \<notin> set (drop 3 ?pre)" by simp
  have c2: "BS \<notin> set ?a \<and> count_list ?a SQ = 8 \<and> last ?a = SQ \<and> CHR ''['' \<notin> set ?g" by simp
  note T = toc_strategies_in_order[where j = 3 and pre = ?pre and args = ?args and post = ?post
       and a = ?a and g = ?g and body = ?body and after = ?tl and macroArgs = ?args]
  note T8 = T[THEN conjunct2, THEN conjunct2, THEN conjunct2, THEN conjunct2, THEN conjunct2,
       THEN conjunct2, THEN conjunct2, THEN conjunct2]
  have ma: "macroArguments (?pre @ ''('' @ ?args @ '')'' @ ?post) (int 3) = ?args"
    using T8[THEN conjunct1] b1 c1 by blast
  have as: "afterSections ?args = ?tl"
    using T8[THEN conjunct2, THEN conjunct1] b2 c2 by blast
  have cas: "macroTocItems ?args =
     (if allMatches (pairAt ''title'' ''href'') (afterSections ?args) \<noteq> []
      then map titleHref (allMatches (pairAt ''title'' ''href'') (afterSections ?args))
      else if allMatches (pairAt ''href'' ''title'') (afterSections ?args) \<noteq> []
      then map hrefTitle (allMatches (pairAt ''href'' ''title'') (afterSections ?args))
      else map titleHref (filter (\<lambda>p. startsWith (snd p) ''#'')
                           (allMatches (pairAt ''title'' ''href'') ?args)))"
    by (rule T[THEN conjunct2, THEN conjunct1])
  have t1: "allMatches (pairAt ''title'' ''href'') ?tl = []" by code_simp
  have t2: "allMatches (pairAt ''href'' ''title'') ?tl = [(''#a'', ''H'')]" by code_simp
  have t3: "allMatches (pairAt ''title'' ''href'') ?args = [(''S'', ''#p'')]" by code_simp
  have mt: "macroTocItems ?args = [\<lparr> toc_href = ''#a'', toc_title = ''H'' \<rparr>]"
    using cas unfolding as t1 t2 by (simp add: hrefTitle_def)
  have e2: "pa_tocItems (parseTwigFile ''{{ blog_macros.blog_content('T', asset('i.png'), 'alt', 'intro', [ {'title': 'S', 'href': '#p'} ], [ {'href': '#a', 'title': 'H'} ], null) }} ({'title': 'X', 'href': '#x'})'')
       = Some [\<lparr> toc_href = ''#a'', toc_title = ''H'' \<rparr>]"
    by code_simp
  have e3: "pa_tocItems (parseTwigFile ''{{ blog_macros.blog_content('T', asset('i.png'), 'alt', 'intro', [ {'title': 'S', 'href': '#p'}, {'title': 'U', 'href': 'q'} ], null) }}'')
       = Some [\<lparr> toc_href = ''#p'', toc_title = ''S'' \<rparr>]"
    by code_simp
  from h1 h2 r e ma as t3 mt e2 e3 show ?thesis by simp
qed

text \<open>
  Claim C4 as stated fails in the named-object form, where the order title, href is not
  tried: the object literal holds a pair in that order, and the table of contents of the
  article is empty. It also fails for the last search, which is not over the whole
  source: a pair after the call, with an href that starts with \<^verbatim>\<open>#\<close>, is in the source
  and not in the table of contents.
\<close>

theorem named_form_ignores_title_href_counterexample:
  "pa_tocItems (parseTwigFile ''{% set article_data = { 'toc_items': [ {'title': 'X', 'href': '#x'} ] } %}'')
     = Some []
   \<and> allMatches (pairAt ''title'' ''href'')
        (articleHash ''{% set article_data = { 'toc_items': [ {'title': 'X', 'href': '#x'} ] } %}'' 0)
     = [(''X'', ''#x'')]
   \<and> pa_tocItems (parseTwigFile ''{{ blog_macros.blog_content('T') }} {'title': 'X', 'href': '#x'}'')
     = Some []
   \<and> allMatches (pairAt ''title'' ''href'')
        ''{{ blog_macros.blog_content('T') }} {'title': 'X', 'href': '#x'}''
     = [(''X'', ''#x'')]"
  by code_simp

section \<open>Links in the inline markup converter\<close>











lemma partRun_Nil: "partRun [] = None"
  by (simp add: partRun_def)







end
